theory Spec2Isabelle
  imports Main "HOL-Library.Sublist" "HOL-Library.AList" "HOL-Library.Multiset"
begin

section \<open>JavaScript string primitives used by the parser\<close>

text \<open>
  Strings are lists of characters with code units 0 to 255; code units beyond that range
  are outside the model. The primitives below are the library functions of
  \<^verbatim>\<open>String.prototype\<close> that the code calls, written out on lists:
  \<^verbatim>\<open>s.indexOf(pat, from)\<close>, \<^verbatim>\<open>s.lastIndexOf(pat)\<close>, \<^verbatim>\<open>s.substring(a, b)\<close>,
  \<^verbatim>\<open>s.substring(a)\<close>, \<^verbatim>\<open>s.includes(pat)\<close>, \<^verbatim>\<open>s.trim()\<close> (white space and line
  terminators: tab, line feed, vertical tab, form feed, carriage return, space and
  no-break space) and \<^verbatim>\<open>s.toLowerCase()\<close> (the letters A to Z and the capital letters of
  Latin-1). A string is truthy when it is not empty.
\<close>

definition truthy :: "string \<Rightarrow> bool" where
  "truthy s = (s \<noteq> [])"

definition starts_with :: "string \<Rightarrow> string \<Rightarrow> bool" where
  "starts_with pat s = (take (length pat) s = pat)"

fun first_occurrence :: "string \<Rightarrow> string \<Rightarrow> nat option" where
  "first_occurrence pat [] = (if pat = [] then Some 0 else None)"
| "first_occurrence pat (c # cs) =
     (if starts_with pat (c # cs) then Some 0
      else map_option Suc (first_occurrence pat cs))"

fun last_occurrence :: "string \<Rightarrow> string \<Rightarrow> nat option" where
  "last_occurrence pat [] = (if pat = [] then Some 0 else None)"
| "last_occurrence pat (c # cs) =
     (case last_occurrence pat cs of
        Some i \<Rightarrow> Some (Suc i)
      | None \<Rightarrow> if starts_with pat (c # cs) then Some 0 else None)"

definition indexOf :: "string \<Rightarrow> string \<Rightarrow> nat \<Rightarrow> nat option" where
  "indexOf s pat from =
     (let start = min from (length s)
      in map_option (\<lambda>i. i + start) (first_occurrence pat (drop start s)))"

definition lastIndexOf :: "string \<Rightarrow> string \<Rightarrow> nat option" where
  "lastIndexOf s pat = last_occurrence pat s"

definition substring :: "string \<Rightarrow> nat \<Rightarrow> nat \<Rightarrow> string" where
  "substring s a b =
     (let a' = min a (length s); b' = min b (length s);
          lo = min a' b'; hi = max a' b'
      in take (hi - lo) (drop lo s))"

definition substring_from :: "string \<Rightarrow> nat \<Rightarrow> string" where
  "substring_from s a = drop a s"

definition str_includes :: "string \<Rightarrow> string \<Rightarrow> bool" where
  "str_includes s pat = (first_occurrence pat s \<noteq> None)"

definition is_whitespace :: "char \<Rightarrow> bool" where
  "is_whitespace c = (of_char c \<in> {9, 10, 11, 12, 13, 32, 160 :: nat})"

definition trim :: "string \<Rightarrow> string" where
  "trim s = rev (dropWhile is_whitespace (rev (dropWhile is_whitespace s)))"

definition lower_char :: "char \<Rightarrow> char" where
  "lower_char c =
     (let n = (of_char c :: nat)
      in if (65 \<le> n \<and> n \<le> 90) \<or> (192 \<le> n \<and> n \<le> 214) \<or> (216 \<le> n \<and> n \<le> 222)
         then char_of (n + 32) else c)"

definition toLowerCase :: "string \<Rightarrow> string" where
  "toLowerCase s = map lower_char s"

section \<open>Record Boundary Scanner\<close>

text \<open>
  The three stream readers of \<^verbatim>\<open>parser.ts\<close> (\<^verbatim>\<open>processXmlFile\<close>,
  \<^verbatim>\<open>processXmlFileForExtraction\<close>, \<^verbatim>\<open>extractAllCategoriesInSinglePass\<close>) run the same
  loop in their \<^verbatim>\<open>'data'\<close> handler and differ only in the per-record callback. The loop
  is modelled once, with the callback \<open>on_record\<close> and the state it mutates as
  parameters. The progress counter \<^verbatim>\<open>recordCount\<close> only feeds log output and is left out.
\<close>

definition close_tag :: string where
  "close_tag = ''</marc:record>''"

definition open_tag :: string where
  "open_tag = ''<marc:record>''"

text \<open>
  One pass of the \<^verbatim>\<open>while (recordEnd !== -1)\<close> loop at a given \<^verbatim>\<open>recordStart\<close>; the
  result is the final \<^verbatim>\<open>recordStart\<close> and the callback's state.
\<close>

function scan_loop :: "(string \<Rightarrow> 's \<Rightarrow> 's) \<Rightarrow> string \<Rightarrow> nat \<Rightarrow> 's \<Rightarrow> nat \<times> 's" where
  "scan_loop on_record buffer recordStart st =
     (case indexOf buffer close_tag recordStart of
        None \<Rightarrow> (recordStart, st)
      | Some recordEnd \<Rightarrow>
          let recordXml = substring buffer recordStart (recordEnd + length close_tag);
              st' = (case lastIndexOf recordXml open_tag of
                       Some recordStartTag \<Rightarrow>
                         on_record (substring_from recordXml recordStartTag) st
                     | None \<Rightarrow> st)
          in scan_loop on_record buffer (recordEnd + length close_tag) st')"
  by pat_completeness auto

lemma first_occurrence_bound:
  "first_occurrence pat s = Some i \<Longrightarrow> i + length pat \<le> length s"
proof (induction s arbitrary: i)
  case Nil
  then show ?case by (simp split: if_splits)
next
  case (Cons c cs)
  show ?case
  proof (cases "starts_with pat (c # cs)")
    case True
    have "length (take (length pat) (c # cs)) \<le> length (c # cs)"
      by simp
    with True Cons.prems show ?thesis
      by (simp add: starts_with_def)
  next
    case False
    with Cons.prems obtain j where "first_occurrence pat cs = Some j" "i = Suc j"
      by auto
    with Cons.IH show ?thesis by fastforce
  qed
qed

lemma indexOf_bounds:
  assumes "indexOf s pat from = Some e"
  shows "min from (length s) \<le> e" and "e + length pat \<le> length s"
proof -
  from assms obtain i where i: "first_occurrence pat (drop (min from (length s)) s) = Some i"
    and e: "e = i + min from (length s)"
    by (auto simp: indexOf_def Let_def)
  show "min from (length s) \<le> e" using e by simp
  from first_occurrence_bound [OF i] e show "e + length pat \<le> length s"
    by simp
qed

termination scan_loop
proof (relation "measure (\<lambda>(on_record, buffer, recordStart, st). length buffer - recordStart)")
  show "wf (measure (\<lambda>(on_record :: string \<Rightarrow> 's \<Rightarrow> 's, buffer, recordStart, st :: 's).
              length buffer - recordStart))"
    by simp
next
  fix on_record :: "string \<Rightarrow> 's \<Rightarrow> 's" and buffer recordStart and st :: 's
    and recordEnd recordXml st'
  assume "indexOf buffer close_tag recordStart = Some recordEnd"
  from indexOf_bounds [OF this]
  have "min recordStart (length buffer) \<le> recordEnd"
    and "recordEnd + length close_tag \<le> length buffer"
    by simp_all
  moreover have "length close_tag = 14"
    by (simp add: close_tag_def)
  ultimately have "length buffer - (recordEnd + length close_tag) < length buffer - recordStart"
    by arith
  then show "((on_record, buffer, recordEnd + length close_tag, st'),
              (on_record, buffer, recordStart, st))
             \<in> measure (\<lambda>(on_record, buffer, recordStart, st). length buffer - recordStart)"
    by simp
qed

text \<open>
  The \<^verbatim>\<open>'data'\<close> handler: append the chunk, run the loop from position 0, keep the
  unconsumed remainder as the new buffer. The stream state is the buffer and the
  callback's state.
\<close>

definition on_data :: "(string \<Rightarrow> 's \<Rightarrow> 's) \<Rightarrow> string \<times> 's \<Rightarrow> string \<Rightarrow> string \<times> 's" where
  "on_data on_record bs chunk =
     (let buffer = fst bs @ chunk;
          (recordStart, st') = scan_loop on_record buffer 0 (snd bs)
      in (substring_from buffer recordStart, st'))"

text \<open>
  Reading a whole file: the chunks arrive in order, starting from the empty buffer; the
  \<^verbatim>\<open>'end'\<close> handler resolves without looking at the buffer.
\<close>

definition read_stream :: "(string \<Rightarrow> 's \<Rightarrow> 's) \<Rightarrow> string list \<Rightarrow> 's \<Rightarrow> string \<times> 's" where
  "read_stream on_record chunks st = foldl (on_data on_record) ([], st) chunks"

text \<open>
  The fragments handed to the callback, in order: the scanner run with a callback that
  records its argument.
\<close>

definition dispatched_fragments :: "string list \<Rightarrow> string list" where
  "dispatched_fragments chunks = snd (read_stream (\<lambda>fragment acc. acc @ [fragment]) chunks [])"

text \<open>
  Whole-file description of the scanner's output, used to state what the streaming loop
  computes. \<open>cut_segments\<close> cuts a text right after each closing marker;
  \<open>unterminated_tail\<close> is what follows the last closing marker; \<open>fragment_of\<close> keeps
  of a segment the part from its last opening marker on, if it has one.
\<close>

function cut_segments :: "string \<Rightarrow> string list" where
  "cut_segments s =
     (case first_occurrence close_tag s of
        None \<Rightarrow> []
      | Some e \<Rightarrow> take (e + length close_tag) s # cut_segments (drop (e + length close_tag) s))"
  by pat_completeness auto

function unterminated_tail :: "string \<Rightarrow> string" where
  "unterminated_tail s =
     (case first_occurrence close_tag s of
        None \<Rightarrow> s
      | Some e \<Rightarrow> unterminated_tail (drop (e + length close_tag) s))"
  by pat_completeness auto

lemma drop_past_close_tag_shorter:
  assumes "first_occurrence close_tag s = Some e"
  shows "length s - (e + length close_tag) < length s"
proof -
  have "e + length close_tag \<le> length s"
    using first_occurrence_bound [OF assms] .
  moreover have "length close_tag = 14"
    by (simp add: close_tag_def)
  ultimately show ?thesis by arith
qed

termination cut_segments
  by (relation "measure length") (simp_all add: drop_past_close_tag_shorter)

termination unterminated_tail
  by (relation "measure length") (simp_all add: drop_past_close_tag_shorter)

definition fragment_of :: "string \<Rightarrow> string list" where
  "fragment_of segment =
     (case lastIndexOf segment open_tag of
        None \<Rightarrow> []
      | Some recordStartTag \<Rightarrow> [drop recordStartTag segment])"

section \<open>MARC records as delivered by the XML parser\<close>

text \<open>
  \<^verbatim>\<open>parseString\<close> (xml2js, \<^verbatim>\<open>explicitArray: false\<close>) is a black box: a function from the
  fragment text to a record, or to nothing when it reports an error. With
  \<^verbatim>\<open>explicitArray: false\<close> a child that occurs once is delivered as the object itself and
  a repeated child as an array; \<open>as_array\<close> is the normalisation every reader applies
  (\<^verbatim>\<open>Array.isArray(x) ? x : x ? [x] : []\<close>).

  An element with attributes is delivered as an object that holds them under \<^verbatim>\<open>$\<close> and
  its text under \<^verbatim>\<open>_\<close>. A subfield with attributes is its \<^verbatim>\<open>$.code\<close> (the empty string
  when it has other attributes but no code: the readers only compare it with the codes
  they look for) and its text \<^verbatim>\<open>_\<close> (the empty string when the element has no text: the
  readers only test the text for truthiness before they use it). A data field is its
  \<^verbatim>\<open>$.tag\<close>, which is \<open>None\<close> for an element the loops skip (\<^verbatim>\<open>!dataField || !dataField.$\<close>)
  or one without a tag attribute, and its subfields. Only \<^verbatim>\<open>'marc:datafield'\<close> of a
  record is ever read.
\<close>

datatype 'a xml_children = Absent | Single 'a | Many "'a list"

fun as_array :: "'a xml_children \<Rightarrow> 'a list" where
  "as_array Absent = []"
| "as_array (Single x) = [x]"
| "as_array (Many xs) = xs"

record subfield =
  sf_code :: string
  sf_text :: string

record datafield =
  df_tag :: "string option"
  df_subfields :: "subfield xml_children"

record marc_record =
  marc_datafield :: "datafield xml_children"

text \<open>The test \<^verbatim>\<open>subField.$.code === c && subField._\<close> shared by all readers.\<close>

definition has_code :: "string \<Rightarrow> subfield \<Rightarrow> bool" where
  "has_code c subField = (sf_code subField = c \<and> truthy (sf_text subField))"

text \<open>
  An element without attributes is delivered as its bare text, which has no \<^verbatim>\<open>$\<close>. The
  loops skip such a data field (its tag is \<open>None\<close>), but no loop tests a subfield for it:
  reading \<^verbatim>\<open>subField.$.code\<close> of such a subfield throws a \<^verbatim>\<open>TypeError\<close>. A
  \<open>subfield_element\<close> is a subfield as the parser delivers it, with attributes or as bare
  text, and a \<open>parsed_record\<close> is a record as the parser delivers it; a \<open>marc_record\<close>
  is a record all of whose subfields have attributes.

  \<open>elements_of\<close> is the normalisation of the subfields
  (\<^verbatim>\<open>Array.isArray(x) ? x : x ? [x] : []\<close>): a single child that is the empty text is
  falsy and gives no element.
\<close>

datatype subfield_element = WithAttributes subfield | WithoutAttributes string

record parsed_datafield =
  parsed_tag :: "string option"
  parsed_subfields :: "subfield_element xml_children"

record parsed_record =
  parsed_datafields :: "parsed_datafield xml_children"

type_synonym xml_parser = "string \<Rightarrow> parsed_record option"

definition elements_of :: "subfield_element xml_children \<Rightarrow> subfield_element list" where
  "elements_of children =
     (case children of
        Absent \<Rightarrow> []
      | Single element \<Rightarrow> if element = WithoutAttributes [] then [] else [element]
      | Many elements \<Rightarrow> elements)"

text \<open>
  A loop \<^verbatim>\<open>for (const subField of subFields)\<close> reads \<^verbatim>\<open>subField.$.code\<close> of each element
  it visits. \<open>visit_all\<close> is a loop that runs to the end, \<open>visit_until stop\<close> a loop
  that is left (\<^verbatim>\<open>break\<close>, \<^verbatim>\<open>return\<close>) at the first subfield satisfying \<open>stop\<close>: the
  result is the list of the subfields visited, or \<open>None\<close> when the loop comes to an
  element without attributes and throws. \<open>leading_subfields\<close> are the subfields visited
  before that happens.
\<close>

fun visit_all :: "subfield_element list \<Rightarrow> subfield list option" where
  "visit_all [] = Some []"
| "visit_all (WithAttributes subField # rest) = map_option (Cons subField) (visit_all rest)"
| "visit_all (WithoutAttributes bare # rest) = None"

fun visit_until :: "(subfield \<Rightarrow> bool) \<Rightarrow> subfield_element list \<Rightarrow> subfield list option" where
  "visit_until stop [] = Some []"
| "visit_until stop (WithAttributes subField # rest) =
     (if stop subField then Some [subField]
      else map_option (Cons subField) (visit_until stop rest))"
| "visit_until stop (WithoutAttributes bare # rest) = None"

fun leading_subfields :: "subfield_element list \<Rightarrow> subfield list" where
  "leading_subfields [] = []"
| "leading_subfields (WithAttributes subField # rest) = subField # leading_subfields rest"
| "leading_subfields (WithoutAttributes bare # rest) = []"

section \<open>Plain objects used as dictionaries\<close>

text \<open>
  The term counters and the download index are plain objects (\<^verbatim>\<open>{}\<close>, or the result of
  \<^verbatim>\<open>JSON.parse\<close>) indexed by a string. Such an object is kept as the list of its own
  properties in the order in which \<^verbatim>\<open>Object.entries\<close> and \<^verbatim>\<open>for ... in\<close> list them: the
  keys that are array indices (the canonical decimal form of an integer below 4294967295)
  in ascending numeric order, then the other keys in the order of their creation.

  Reading \<^verbatim>\<open>object[key]\<close> also finds the members inherited from \<^verbatim>\<open>Object.prototype\<close>,
  all of them truthy (functions, and the prototype itself for \<^verbatim>\<open>__proto__\<close>). An
  assignment to a property of such an inherited value changes that value, not the
  object; an assignment \<^verbatim>\<open>object[key] = value\<close> for a key that is neither own nor
  inherited creates an own property.
\<close>

definition inherited_member :: "string \<Rightarrow> bool" where
  "inherited_member key =
     (key \<in> {''constructor'', ''hasOwnProperty'', ''isPrototypeOf'', ''propertyIsEnumerable'',
              ''toLocaleString'', ''toString'', ''valueOf'', ''__defineGetter__'',
              ''__defineSetter__'', ''__lookupGetter__'', ''__lookupSetter__'', ''__proto__''})"

datatype 'v property = Undefined | Own 'v | Inherited

definition obj_get :: "(string \<times> 'v) list \<Rightarrow> string \<Rightarrow> 'v property" where
  "obj_get object key =
     (case map_of object key of
        Some v \<Rightarrow> Own v
      | None \<Rightarrow> if inherited_member key then Inherited else Undefined)"

definition decimal_value :: "string \<Rightarrow> int" where
  "decimal_value digits = foldl (\<lambda>n c. 10 * n + (of_char c - 48)) 0 digits"

definition array_index :: "string \<Rightarrow> int option" where
  "array_index key =
     (if key \<noteq> [] \<and> list_all (\<lambda>c. 48 \<le> (of_char c :: nat) \<and> (of_char c :: nat) \<le> 57) key \<and>
         (hd key \<noteq> CHR ''0'' \<or> length key = 1) \<and> decimal_value key < 4294967295
      then Some (decimal_value key)
      else None)"

text \<open>
  \<open>obj_create key v object\<close> is \<^verbatim>\<open>object[key] = v\<close> for a key that is not yet an own
  property: an array index goes in front of the larger array indices and of the other
  keys, any other key goes last.
\<close>

fun obj_create :: "string \<Rightarrow> 'v \<Rightarrow> (string \<times> 'v) list \<Rightarrow> (string \<times> 'v) list" where
  "obj_create key v [] = [(key, v)]"
| "obj_create key v ((k, w) # rest) =
     (case array_index key of
        None \<Rightarrow> (k, w) # obj_create key v rest
      | Some n \<Rightarrow>
          (case array_index k of
             Some m \<Rightarrow> if m < n then (k, w) # obj_create key v rest else (key, v) # (k, w) # rest
           | None \<Rightarrow> (key, v) # (k, w) # rest))"

section \<open>Category Tally Engine\<close>

record counter_entry =
  ce_count :: int
  ce_code :: "string option"

type_synonym category_counter = "(string \<times> counter_entry) list"

record category_data =
  cat_name :: string
  cat_code :: "string option"
  cat_count :: int
  cat_field :: string

record parse_options =
  minCount :: "int option"

record parser_state =
  st_subjectTerms :: category_counter
  st_keywords :: category_counter
  st_totalRecords :: nat

record category_results =
  res_subjectTerms :: "category_data list"
  res_keywords :: "category_data list"
  res_totalRecords :: nat

text \<open>
  \<^verbatim>\<open>if (!counter[term]) counter[term] = { count: 0 }; counter[term].count++\<close> on a counter
  object. An entry is an object, so an own entry is truthy whatever its count. For a term
  that names an inherited member the test finds that member, and the increment sets a
  \<^verbatim>\<open>count\<close> on it: the counter gets no entry.
\<close>

definition increment :: "category_counter \<Rightarrow> string \<Rightarrow> category_counter" where
  "increment counter term =
     (case obj_get counter term of
        Undefined \<Rightarrow> obj_create term \<lparr>ce_count = 0 + 1, ce_code = None\<rparr> counter
      | Own e \<Rightarrow> AList.update term (e\<lparr>ce_count := ce_count e + 1\<rparr>) counter
      | Inherited \<Rightarrow> counter)"

definition count_terms :: "category_counter \<Rightarrow> subfield list \<Rightarrow> category_counter" where
  "count_terms counter subFields =
     foldl (\<lambda>counter subField.
              if has_code ''a'' subField
              then (let term = trim (sf_text subField)
                    in if truthy term then increment counter term else counter)
              else counter)
       counter subFields"

definition extractSubjectTerms :: "subfield list \<Rightarrow> parser_state \<Rightarrow> parser_state" where
  "extractSubjectTerms subFields st = st\<lparr>st_subjectTerms := count_terms (st_subjectTerms st) subFields\<rparr>"

definition extractKeywords :: "subfield list \<Rightarrow> parser_state \<Rightarrow> parser_state" where
  "extractKeywords subFields st = st\<lparr>st_keywords := count_terms (st_keywords st) subFields\<rparr>"

text \<open>
  \<^verbatim>\<open>extractCategories\<close> also tells whether it returned (\<open>True\<close>) or threw. The counters are
  fields of the parser object: what a loop counted before it throws stays counted. The
  exception ends the callback of \<^verbatim>\<open>parseString\<close> before the record is added to
  \<^verbatim>\<open>totalRecords\<close>, and it goes no further than the \<^verbatim>\<open>try\<close> of \<^verbatim>\<open>processRecord\<close>.
\<close>

fun extract_fields :: "parsed_datafield list \<Rightarrow> parser_state \<Rightarrow> parser_state \<times> bool" where
  "extract_fields [] st = (st, True)"
| "extract_fields (dataField # rest) st =
     (case parsed_tag dataField of
        None \<Rightarrow> extract_fields rest st
      | Some tag \<Rightarrow>
          let subFields = elements_of (parsed_subfields dataField)
          in if tag = ''650'' \<or> tag = ''653''
             then (let st' = (if tag = ''650''
                              then extractSubjectTerms (leading_subfields subFields) st
                              else extractKeywords (leading_subfields subFields) st)
                   in if visit_all subFields = None then (st', False)
                      else extract_fields rest st')
             else extract_fields rest st)"

definition extractCategories :: "parsed_record \<Rightarrow> parser_state \<Rightarrow> parser_state \<times> bool" where
  "extractCategories record st =
     (if parsed_datafields record = Absent then (st, True)
      else extract_fields (as_array (parsed_datafields record)) st)"

definition processRecord :: "xml_parser \<Rightarrow> string \<Rightarrow> parser_state \<Rightarrow> parser_state" where
  "processRecord parseString recordXml st =
     (case parseString recordXml of
        None \<Rightarrow> st
      | Some record \<Rightarrow>
          let (st', returned) = extractCategories record st
          in if returned then st'\<lparr>st_totalRecords := st_totalRecords st' + 1\<rparr> else st')"

definition processXmlFile :: "xml_parser \<Rightarrow> string list \<Rightarrow> parser_state \<Rightarrow> parser_state" where
  "processXmlFile parseString chunks st = snd (read_stream (processRecord parseString) chunks st)"

text \<open>
  \<^verbatim>\<open>Object.entries(counter).map(...).filter(...).sort((a, b) => b.count - a.count)\<close>.
  \<^verbatim>\<open>Array.prototype.sort\<close> is stable; with this comparator it orders by descending count,
  which is the stable sort on the negated count. \<^verbatim>\<open>this.options.minCount || 0\<close> turns an
  absent (or zero) option into 0.
\<close>

definition convertToSortedArray ::
    "parse_options \<Rightarrow> category_counter \<Rightarrow> string \<Rightarrow> category_data list" where
  "convertToSortedArray options counter field =
     (let minCount = (case minCount options of None \<Rightarrow> 0 | Some n \<Rightarrow> if n = 0 then 0 else n)
      in sort_key (\<lambda>category. - cat_count category)
           (filter (\<lambda>category. cat_count category \<ge> minCount)
              (map (\<lambda>(name, data).
                      \<lparr>cat_name = name, cat_code = ce_code data,
                       cat_count = ce_count data, cat_field = field\<rparr>)
                 counter)))"

definition generateResults :: "parse_options \<Rightarrow> parser_state \<Rightarrow> category_results" where
  "generateResults options st =
     \<lparr>res_subjectTerms = convertToSortedArray options (st_subjectTerms st) ''650'',
      res_keywords = convertToSortedArray options (st_keywords st) ''653'',
      res_totalRecords = st_totalRecords st\<rparr>"

definition resetCounters :: parser_state where
  "resetCounters = \<lparr>st_subjectTerms = [], st_keywords = [], st_totalRecords = 0\<rparr>"

definition parseFile :: "parse_options \<Rightarrow> xml_parser \<Rightarrow> string list \<Rightarrow> category_results" where
  "parseFile options parseString chunks =
     generateResults options (processXmlFile parseString chunks resetCounters)"

section \<open>Book Record Mapper\<close>

record book_record =
  title :: string
  language :: "string option"
  authors :: "string list"
  nbPages :: "nat option"
  publicationDate :: "string option"
  bookUrl :: string
  ISBN :: "string option"
  description :: "string option"
  publisher :: string
  licence :: "string option"
  thumnail :: "string option"

text \<open>Truthiness of a \<^verbatim>\<open>string | null\<close> field: neither \<^verbatim>\<open>null\<close> nor empty.\<close>

definition truthy_opt :: "string option \<Rightarrow> bool" where
  "truthy_opt v = (case v of None \<Rightarrow> False | Some s \<Rightarrow> truthy s)"

definition default_book_record :: book_record where
  "default_book_record =
     \<lparr>title = [], language = None, authors = [], nbPages = None, publicationDate = None,
      bookUrl = [], ISBN = None, description = None, publisher = [], licence = None,
      thumnail = None\<rparr>"

text \<open>
  Field 300: \<^verbatim>\<open>physicalDesc.match(/(\d+)\s*(?:p\.?|pages?)/i)\<close> and \<^verbatim>\<open>parseInt(pageMatch[1], 10)\<close>.
  Both alternatives of the group begin with the letter p, so the leftmost match starts
  at the first run of digits that is followed, after optional whitespace, by \<^verbatim>\<open>p\<close> or
  \<^verbatim>\<open>P\<close>, and its first group is that whole run.
\<close>

definition is_digit :: "char \<Rightarrow> bool" where
  "is_digit c = (48 \<le> (of_char c :: nat) \<and> (of_char c :: nat) \<le> 57)"

function page_match :: "string \<Rightarrow> string option" where
  "page_match [] = None"
| "page_match (c # cs) =
     (if is_digit c
      then (let digits = takeWhile is_digit (c # cs);
                rest = dropWhile is_digit cs
            in case dropWhile is_whitespace rest of
                 [] \<Rightarrow> page_match rest
               | p # _ \<Rightarrow> if p = CHR ''p'' \<or> p = CHR ''P'' then Some digits
                          else page_match rest)
      else page_match cs)"
  by pat_completeness auto

termination page_match
proof (relation "measure length")
  show "wf (measure (length :: string \<Rightarrow> nat))"
    by simp
next
  fix c :: char and cs digits rest
  assume "rest = dropWhile is_digit cs"
  then have "length rest \<le> length cs"
    by (simp add: length_dropWhile_le)
  then show "(rest, c # cs) \<in> measure length"
    by simp
next
  fix c :: char and cs digits rest p ps
  assume "rest = dropWhile is_digit cs"
  then have "length rest \<le> length cs"
    by (simp add: length_dropWhile_le)
  then show "(rest, c # cs) \<in> measure length"
    by simp
next
  fix c :: char and cs
  show "(cs, c # cs) \<in> measure length"
    by simp
qed

text \<open>
  The value of a run of decimal digits. \<^verbatim>\<open>parseInt\<close> returns this value as long as it is
  below 9007199254740992; for a longer run JavaScript rounds it to a double, which this
  function does not.
\<close>

definition parseInt :: "string \<Rightarrow> nat" where
  "parseInt digits = foldl (\<lambda>n c. 10 * n + (of_char c - 48)) 0 digits"

text \<open>Field 856: the last \<^verbatim>\<open>u\<close> and the last \<^verbatim>\<open>z\<close> subfield of the occurrence.\<close>

definition collect_url :: "subfield list \<Rightarrow> string \<times> string" where
  "collect_url subFields =
     foldl (\<lambda>(url, descr) subField.
              if has_code ''u'' subField then (trim (sf_text subField), descr)
              else if has_code ''z'' subField
                   then (url, toLowerCase (trim (sf_text subField)))
                   else (url, descr))
       ([], []) subFields"

definition isThumbnail :: "string \<Rightarrow> string \<Rightarrow> bool" where
  "isThumbnail url descr =
     (let urlLower = toLowerCase url
      in str_includes descr ''thumbnail'' \<or>
         str_includes descr ''cover'' \<or>
         str_includes descr ''image'' \<or>
         str_includes urlLower ''thumbnail'' \<or>
         str_includes urlLower ''cover'' \<or>
         str_includes urlLower ''image'' \<or>
         str_includes urlLower ''thumb'')"

text \<open>Field 245: the last \<^verbatim>\<open>a\<close> and the last \<^verbatim>\<open>b\<close> subfield of the occurrence.\<close>

definition collect_title :: "subfield list \<Rightarrow> string \<times> string" where
  "collect_title subFields =
     foldl (\<lambda>(ttl, subtitle) subField.
              if has_code ''a'' subField then (trim (sf_text subField), subtitle)
              else if has_code ''b'' subField then (ttl, trim (sf_text subField))
                   else (ttl, subtitle))
       ([], []) subFields"

text \<open>The loop bodies of fields 100/700, 260 and 540.\<close>

definition add_author :: "book_record \<Rightarrow> subfield \<Rightarrow> book_record" where
  "add_author bookRecord subField =
     (if has_code ''a'' subField
      then (let author = trim (sf_text subField)
            in if truthy author \<and> author \<notin> set (authors bookRecord)
               then bookRecord\<lparr>authors := authors bookRecord @ [author]\<rparr>
               else bookRecord)
      else bookRecord)"

definition set_publication :: "book_record \<Rightarrow> subfield \<Rightarrow> book_record" where
  "set_publication bookRecord subField =
     (if has_code ''b'' subField
      then bookRecord\<lparr>publisher := trim (sf_text subField)\<rparr>
      else if has_code ''c'' subField
           then bookRecord\<lparr>publicationDate := Some (trim (sf_text subField))\<rparr>
           else bookRecord)"

definition set_licence :: "book_record \<Rightarrow> subfield \<Rightarrow> book_record" where
  "set_licence bookRecord subField =
     (if (sf_code subField = ''a'' \<or> sf_code subField = ''f'') \<and> truthy (sf_text subField)
      then (if \<not> truthy_opt (licence bookRecord)
            then bookRecord\<lparr>licence := Some (trim (sf_text subField))\<rparr>
            else bookRecord)
      else bookRecord)"

text \<open>
  The body of the \<^verbatim>\<open>switch (tag)\<close> for one data field. A loop that stops at its first
  hit (\<^verbatim>\<open>break\<close>) is \<open>find\<close>; a loop that runs through all subfields is a fold.
\<close>

definition convert_field :: "string \<Rightarrow> subfield list \<Rightarrow> book_record \<Rightarrow> book_record" where
  "convert_field tag subFields bookRecord =
     (if tag = ''020'' then
        (if \<not> truthy_opt (ISBN bookRecord)
         then (case find (has_code ''a'') subFields of
                 Some subField \<Rightarrow> bookRecord\<lparr>ISBN := Some (trim (sf_text subField))\<rparr>
               | None \<Rightarrow> bookRecord)
         else bookRecord)
      else if tag = ''100'' \<or> tag = ''700'' then
        foldl add_author bookRecord subFields
      else if tag = ''245'' then
        (let (ttl, subtitle) = collect_title subFields
         in bookRecord\<lparr>title := (if truthy subtitle then ttl @ '': '' @ subtitle else ttl)\<rparr>)
      else if tag = ''260'' then
        foldl set_publication bookRecord subFields
      else if tag = ''300'' then
        (case find (has_code ''a'') subFields of
           Some subField \<Rightarrow>
             (case page_match (trim (sf_text subField)) of
                Some digits \<Rightarrow> bookRecord\<lparr>nbPages := Some (parseInt digits)\<rparr>
              | None \<Rightarrow> bookRecord)
         | None \<Rightarrow> bookRecord)
      else if tag = ''520'' then
        (case find (has_code ''a'') subFields of
           Some subField \<Rightarrow> bookRecord\<lparr>description := Some (trim (sf_text subField))\<rparr>
         | None \<Rightarrow> bookRecord)
      else if tag = ''540'' then
        foldl set_licence bookRecord subFields
      else if tag = ''546'' then
        (case find (has_code ''a'') subFields of
           Some subField \<Rightarrow> bookRecord\<lparr>language := Some (trim (sf_text subField))\<rparr>
         | None \<Rightarrow> bookRecord)
      else if tag = ''856'' then
        (let (url, descr) = collect_url subFields
         in if truthy url
            then (if isThumbnail url descr \<and> \<not> truthy_opt (thumnail bookRecord)
                  then bookRecord\<lparr>thumnail := Some url\<rparr>
                  else if \<not> truthy (bookUrl bookRecord)
                       then bookRecord\<lparr>bookUrl := url\<rparr>
                       else bookRecord)
            else bookRecord)
      else bookRecord)"

definition convert_datafield :: "book_record \<Rightarrow> datafield \<Rightarrow> book_record" where
  "convert_datafield bookRecord dataField =
     (case df_tag dataField of
        None \<Rightarrow> bookRecord
      | Some tag \<Rightarrow> convert_field tag (as_array (df_subfields dataField)) bookRecord)"

definition convertToBookRecord :: "marc_record \<Rightarrow> book_record" where
  "convertToBookRecord record =
     (if marc_datafield record = Absent then default_book_record
      else foldl convert_datafield default_book_record (as_array (marc_datafield record)))"

text \<open>
  The mapper on a record as the parser delivers it. A case of the switch reads
  \<^verbatim>\<open>subField.$.code\<close> of the subfields its loop visits: all of them (100, 700, 245, 260,
  540, 856), those up to the first subfield \<^verbatim>\<open>a\<close> with text, where the loop breaks (020
  while no ISBN is set, 300, 520, 546), none otherwise. When one of them has no
  attributes the \<^verbatim>\<open>TypeError\<close> leaves \<^verbatim>\<open>convertToBookRecord\<close>, which is the result \<open>None\<close>;
  else the case does to the visited subfields what \<open>convert_field\<close> says.
\<close>

definition visited_subfields ::
    "string \<Rightarrow> book_record \<Rightarrow> subfield_element list \<Rightarrow> subfield list option" where
  "visited_subfields tag bookRecord subFields =
     (if tag = ''020'' then
        (if \<not> truthy_opt (ISBN bookRecord) then visit_until (has_code ''a'') subFields
         else Some [])
      else if tag = ''300'' \<or> tag = ''520'' \<or> tag = ''546'' then
        visit_until (has_code ''a'') subFields
      else if tag = ''100'' \<or> tag = ''700'' \<or> tag = ''245'' \<or> tag = ''260'' \<or>
              tag = ''540'' \<or> tag = ''856'' then
        visit_all subFields
      else Some [])"

fun convert_parsed_fields :: "book_record \<Rightarrow> parsed_datafield list \<Rightarrow> book_record option" where
  "convert_parsed_fields bookRecord [] = Some bookRecord"
| "convert_parsed_fields bookRecord (dataField # rest) =
     (case parsed_tag dataField of
        None \<Rightarrow> convert_parsed_fields bookRecord rest
      | Some tag \<Rightarrow>
          (case visited_subfields tag bookRecord (elements_of (parsed_subfields dataField)) of
             None \<Rightarrow> None
           | Some subFields \<Rightarrow>
               convert_parsed_fields (convert_field tag subFields bookRecord) rest))"

definition convertToBookRecord_parsed :: "parsed_record \<Rightarrow> book_record option" where
  "convertToBookRecord_parsed record =
     (if parsed_datafields record = Absent then Some default_book_record
      else convert_parsed_fields default_book_record (as_array (parsed_datafields record)))"

section \<open>Single-criterion extraction\<close>

record extract_options =
  opt_field :: string
  opt_name :: string

record extract_results =
  er_field :: string
  er_name :: string
  er_matchingRecords :: "book_record list"
  er_totalMatches :: nat
  er_outputFile :: string

text \<open>
  The loops of \<^verbatim>\<open>recordMatchesCriteria\<close>, the same in \<^verbatim>\<open>recordMatchesCategoryFilter\<close>: the
  data fields in document order and, for one with the requested tag, its subfields up to
  the first subfield \<^verbatim>\<open>a\<close> whose trimmed text is the requested name (\<^verbatim>\<open>return true\<close>). The
  result is \<open>None\<close> when a visited subfield has no attributes and the test throws.
\<close>

fun matching_field :: "string \<Rightarrow> string \<Rightarrow> parsed_datafield list \<Rightarrow> bool option" where
  "matching_field field name [] = Some False"
| "matching_field field name (dataField # rest) =
     (if parsed_tag dataField = Some field
      then (case visit_until (\<lambda>subField. has_code ''a'' subField \<and>
                                           trim (sf_text subField) = name)
                   (elements_of (parsed_subfields dataField)) of
              None \<Rightarrow> None
            | Some subFields \<Rightarrow>
                if list_ex (\<lambda>subField. has_code ''a'' subField \<and>
                                        trim (sf_text subField) = name) subFields
                then Some True
                else matching_field field name rest)
      else matching_field field name rest)"

definition recordMatchesCriteria :: "parsed_record \<Rightarrow> extract_options \<Rightarrow> bool option" where
  "recordMatchesCriteria record options =
     (if parsed_datafields record = Absent then Some False
      else matching_field (opt_field options) (opt_name options)
             (as_array (parsed_datafields record)))"

text \<open>
  An exception thrown by the match test or by the mapper ends the callback of
  \<^verbatim>\<open>parseString\<close> before the record is pushed, and it goes no further than the \<^verbatim>\<open>try\<close>
  around the call.
\<close>

definition processRecordForExtraction ::
    "xml_parser \<Rightarrow> string \<Rightarrow> extract_options \<Rightarrow> book_record list \<Rightarrow> book_record list" where
  "processRecordForExtraction parseString recordXml options matchingRecords =
     (case parseString recordXml of
        None \<Rightarrow> matchingRecords
      | Some record \<Rightarrow>
          (case recordMatchesCriteria record options of
             None \<Rightarrow> matchingRecords
           | Some matches \<Rightarrow>
               if matches
               then (case convertToBookRecord_parsed record of
                       None \<Rightarrow> matchingRecords
                     | Some bookRecord \<Rightarrow> matchingRecords @ [bookRecord])
               else matchingRecords))"

definition processXmlFileForExtraction ::
    "xml_parser \<Rightarrow> string list \<Rightarrow> extract_options \<Rightarrow> book_record list \<Rightarrow> book_record list" where
  "processXmlFileForExtraction parseString chunks options matchingRecords =
     snd (read_stream (\<lambda>completeRecord acc.
                         processRecordForExtraction parseString completeRecord options acc)
            chunks matchingRecords)"

definition extractRecords :: "xml_parser \<Rightarrow> string list \<Rightarrow> extract_options \<Rightarrow> extract_results" where
  "extractRecords parseString chunks options =
     (let matchingRecords = processXmlFileForExtraction parseString chunks options []
      in \<lparr>er_field = opt_field options, er_name = opt_name options,
          er_matchingRecords = matchingRecords, er_totalMatches = length matchingRecords,
          er_outputFile = []\<rparr>)"

section \<open>Multi-Category Single-Pass Matcher\<close>

record bulk_extract_item =
  item_name :: string
  item_count :: int
  item_field :: string

type_synonym category_buckets = "string \<rightharpoonup> book_record list"

definition category_key :: "bulk_extract_item \<Rightarrow> string" where
  "category_key category = item_field category @ '':'' @ item_name category"

definition recordMatchesCategoryFilter :: "parsed_record \<Rightarrow> string \<Rightarrow> string \<Rightarrow> bool option" where
  "recordMatchesCategoryFilter record field name =
     (if parsed_datafields record = Absent then Some False
      else matching_field field name (as_array (parsed_datafields record)))"

text \<open>
  The loop over the categories inside the callback of \<^verbatim>\<open>parseString\<close>. The buckets are
  arrays of a \<^verbatim>\<open>Map\<close> shared with the caller: what was pushed stays pushed. An exception
  thrown by the match test or by the mapper for one category ends the loop, so the
  categories after it are not tested for this record; it goes no further than the \<^verbatim>\<open>try\<close>
  of \<^verbatim>\<open>processRecordForAllCategories\<close>.
\<close>

fun match_categories ::
    "parsed_record \<Rightarrow> bulk_extract_item list \<Rightarrow> category_buckets \<Rightarrow> category_buckets" where
  "match_categories record [] buckets = buckets"
| "match_categories record (category # rest) buckets =
     (case recordMatchesCategoryFilter record (item_field category) (item_name category) of
        None \<Rightarrow> buckets
      | Some matches \<Rightarrow>
          if matches
          then (case convertToBookRecord_parsed record of
                  None \<Rightarrow> buckets
                | Some bookRecord \<Rightarrow>
                    let key = category_key category
                    in match_categories record rest
                         (case buckets key of
                            Some bucket \<Rightarrow> buckets(key \<mapsto> bucket @ [bookRecord])
                          | None \<Rightarrow> buckets))
          else match_categories record rest buckets)"

definition processRecordForAllCategories ::
    "xml_parser \<Rightarrow> string \<Rightarrow> bulk_extract_item list \<Rightarrow> category_buckets \<Rightarrow> category_buckets" where
  "processRecordForAllCategories parseString recordXml categories categoryBuckets =
     (case parseString recordXml of
        None \<Rightarrow> categoryBuckets
      | Some record \<Rightarrow> match_categories record categories categoryBuckets)"

definition extractAllCategoriesInSinglePass ::
    "xml_parser \<Rightarrow> string list \<Rightarrow> bulk_extract_item list \<Rightarrow> category_buckets" where
  "extractAllCategoriesInSinglePass parseString chunks categories =
     (let categoryBuckets =
            foldl (\<lambda>buckets category. buckets(category_key category \<mapsto> [])) Map.empty categories
      in snd (read_stream (\<lambda>completeRecord buckets.
                             processRecordForAllCategories parseString completeRecord
                               categories buckets)
                chunks categoryBuckets))"

section \<open>Download Index\<close>

text \<open>
  The index is a plain object keyed by sanitized ISBN: the list of its own entries, read
  with \<open>obj_get\<close>. An assignment to a property of an own entry replaces the entry in
  place (\<open>AList.update\<close>).
\<close>

datatype download_state = Pending | Downloading | Error | Done

record index_entry =
  entry_record :: book_record
  downloadState :: download_state
  filePath :: "string option"
  errorMessage :: "string option"
  downloadedAt :: "string option"

type_synonym download_index = "(string \<times> index_entry) list"

text \<open>
  What \<^verbatim>\<open>loadOrCreateIndex\<close> finds at \<^verbatim>\<open>indexPath\<close>: no file, a file that cannot be read
  or parsed, or a parsed index.
\<close>

datatype index_file = NoFile | Unreadable | Parsed download_index

text \<open>The body of the reset loop for one entry, and whether it counted a reset.\<close>

definition reset_entry :: "index_entry \<Rightarrow> index_entry \<times> bool" where
  "reset_entry entry =
     (if downloadState entry = Downloading \<or> downloadState entry = Error
      then (entry\<lparr>downloadState := Pending,
                   errorMessage := (if truthy_opt (errorMessage entry) then None
                                    else errorMessage entry)\<rparr>,
            True)
      else (entry, False))"

fun reset_transient_states :: "download_index \<Rightarrow> nat \<Rightarrow> download_index \<times> nat" where
  "reset_transient_states [] resetCount = ([], resetCount)"
| "reset_transient_states ((isbn, entry) # rest) resetCount =
     (let (entry', counted) = reset_entry entry;
          (rest', resetCount') =
             reset_transient_states rest (if counted then resetCount + 1 else resetCount)
      in ((isbn, entry') # rest', resetCount'))"

definition loadOrCreateIndex :: "index_file \<Rightarrow> download_index" where
  "loadOrCreateIndex file =
     (case file of
        NoFile \<Rightarrow> []
      | Unreadable \<Rightarrow> []
      | Parsed index \<Rightarrow> fst (reset_transient_states index 0))"

text \<open>\<^verbatim>\<open>isbn.replace(/[^a-zA-Z0-9]/g, '')\<close>\<close>

definition is_alphanumeric :: "char \<Rightarrow> bool" where
  "is_alphanumeric c =
     (let n = (of_char c :: nat)
      in (97 \<le> n \<and> n \<le> 122) \<or> (65 \<le> n \<and> n \<le> 90) \<or> (48 \<le> n \<and> n \<le> 57))"

definition sanitizeISBN :: "string \<Rightarrow> string" where
  "sanitizeISBN isbn = filter is_alphanumeric isbn"

text \<open>
  The body of the ingestion loop of \<^verbatim>\<open>processJsonFile\<close> for one record. The test
  \<^verbatim>\<open>!this.index[isbn]\<close> fails for an own entry and for an inherited member alike; in the
  second case \<^verbatim>\<open>this.index[isbn].record = record\<close> sets a property of the inherited
  member and the index keeps its entries.
\<close>

definition ingest_record :: "download_index \<Rightarrow> book_record \<Rightarrow> download_index" where
  "ingest_record index record =
     (if truthy_opt (ISBN record) \<and> truthy (bookUrl record)
      then (let isbn = sanitizeISBN (the (ISBN record))
            in case obj_get index isbn of
                 Undefined \<Rightarrow>
                   obj_create isbn
                     \<lparr>entry_record = record, downloadState = Pending, filePath = None,
                      errorMessage = None, downloadedAt = None\<rparr>
                     index
               | Own entry \<Rightarrow> AList.update isbn (entry\<lparr>entry_record := record\<rparr>) index
               | Inherited \<Rightarrow> index)
      else index)"

text \<open>
  \<^verbatim>\<open>processJsonFile\<close>: the file's content is the parsed results, or nothing when reading
  or parsing it fails (the failure is caught and logged, the index stays as it is).
\<close>

definition processJsonFile :: "download_index \<Rightarrow> extract_results option \<Rightarrow> download_index" where
  "processJsonFile index content =
     (case content of
        None \<Rightarrow> index
      | Some extractResults \<Rightarrow> foldl ingest_record index (er_matchingRecords extractResults))"

section \<open>Download Manager: fetching with redirects\<close>















section \<open>Notions used to state the properties\<close>

text \<open>
  A data field \<open>carries\<close> subfield \<open>c\<close> under \<open>tag\<close> when it has that tag and a subfield
  with that code and a non-empty text (the test every reader applies); \<open>carrying\<close> lists
  the occurrences of a record that do, in document order. \<open>first_value\<close> and
  \<open>last_value\<close> are the trimmed text of the first and of the last such subfield of an
  occurrence.
\<close>

definition carries :: "string \<Rightarrow> string \<Rightarrow> datafield \<Rightarrow> bool" where
  "carries tag c dataField =
     (df_tag dataField = Some tag \<and> list_ex (has_code c) (as_array (df_subfields dataField)))"

definition carrying :: "string \<Rightarrow> string \<Rightarrow> marc_record \<Rightarrow> datafield list" where
  "carrying tag c record = filter (carries tag c) (as_array (marc_datafield record))"

definition first_value :: "string \<Rightarrow> datafield \<Rightarrow> string" where
  "first_value c dataField =
     trim (sf_text (hd (filter (has_code c) (as_array (df_subfields dataField)))))"

definition last_value :: "string \<Rightarrow> datafield \<Rightarrow> string" where
  "last_value c dataField =
     trim (sf_text (last (filter (has_code c) (as_array (df_subfields dataField)))))"

text \<open>The single-criterion options that correspond to one category definition.\<close>

definition criteria_of :: "bulk_extract_item \<Rightarrow> extract_options" where
  "criteria_of category = \<lparr>opt_field = item_field category, opt_name = item_name category\<rparr>"

text \<open>
  A record is extracted without exception for a list of categories when no match test
  throws on it and the mapper does not throw on it. This is so for every list of
  categories when all subfields of the record have attributes.
\<close>

definition extracts_cleanly :: "bulk_extract_item list \<Rightarrow> parsed_record \<Rightarrow> bool" where
  "extracts_cleanly categories record =
     (list_all (\<lambda>category.
                  recordMatchesCategoryFilter record (item_field category) (item_name category)
                    \<noteq> None)
        categories \<and>
      convertToBookRecord_parsed record \<noteq> None)"

definition has_attributes :: "subfield_element \<Rightarrow> bool" where
  "has_attributes element = (case element of WithAttributes subField \<Rightarrow> True | _ \<Rightarrow> False)"

definition fully_attributed :: "parsed_record \<Rightarrow> bool" where
  "fully_attributed record =
     list_all (\<lambda>dataField. list_all has_attributes (elements_of (parsed_subfields dataField)))
       (as_array (parsed_datafields record))"

text \<open>A record all of whose subfields have attributes, as the parser delivers it.\<close>

definition as_parsed :: "marc_record \<Rightarrow> parsed_record" where
  "as_parsed record =
     \<lparr>parsed_datafields =
        map_xml_children
          (\<lambda>dataField. \<lparr>parsed_tag = df_tag dataField,
                         parsed_subfields = map_xml_children WithAttributes (df_subfields dataField)\<rparr>)
          (marc_datafield record)\<rparr>"

text \<open>
  \<open>contains_ci text marker\<close>: some substring of \<open>text\<close> equals the (lower-case) marker
  up to the case of its letters. \<open>paired_text c subFields\<close> is the text that the 856 loop
  ends up with for code \<open>c\<close>: that of the occurrence's last subfield \<open>c\<close> with text, the
  empty string when there is none.
\<close>

definition contains_ci :: "string \<Rightarrow> string \<Rightarrow> bool" where
  "contains_ci text marker =
     (\<exists>before w after. text = before @ w @ after \<and> toLowerCase w = marker)"


text \<open>
  The entries of a counter as \<^verbatim>\<open>convertToSortedArray\<close> maps them, before filtering and
  sorting, and the threshold \<^verbatim>\<open>this.options.minCount || 0\<close>.
\<close>

definition category_entries :: "category_counter \<Rightarrow> string \<Rightarrow> category_data list" where
  "category_entries counter field =
     map (\<lambda>(name, data).
            \<lparr>cat_name = name, cat_code = ce_code data,
             cat_count = ce_count data, cat_field = field\<rparr>)
       counter"

definition threshold :: "parse_options \<Rightarrow> int" where
  "threshold options = (case minCount options of None \<Rightarrow> 0 | Some n \<Rightarrow> n)"

text \<open>
  A record is ingestible when \<^verbatim>\<open>record.ISBN && record.bookUrl\<close> holds; its index key is
  its sanitized ISBN; \<open>new_entry\<close> is the entry \<^verbatim>\<open>processJsonFile\<close> creates; \<open>records_for\<close>
  lists the ingestible records of a file that fall on a given key, in file order.
\<close>

definition ingestible :: "book_record \<Rightarrow> bool" where
  "ingestible record = (truthy_opt (ISBN record) \<and> truthy (bookUrl record))"

definition index_key :: "book_record \<Rightarrow> string" where
  "index_key record = sanitizeISBN (the (ISBN record))"

definition new_entry :: "book_record \<Rightarrow> index_entry" where
  "new_entry record =
     \<lparr>entry_record = record, downloadState = Pending, filePath = None,
      errorMessage = None, downloadedAt = None\<rparr>"

definition records_for :: "string \<Rightarrow> book_record list \<Rightarrow> book_record list" where
  "records_for isbn records =
     filter (\<lambda>record. ingestible record \<and> index_key record = isbn) records"

section \<open>Sample data for the worked instances\<close>

definition sample_unattributed :: parsed_record where
  "sample_unattributed =
     \<lparr>parsed_datafields = Many
        [\<lparr>parsed_tag = Some ''245'',
          parsed_subfields = Single (WithAttributes \<lparr>sf_code = ''a'', sf_text = ''Atlas''\<rparr>)\<rparr>,
         \<lparr>parsed_tag = Some ''650'',
          parsed_subfields = Single (WithAttributes \<lparr>sf_code = ''a'', sf_text = ''Education''\<rparr>)\<rparr>,
         \<lparr>parsed_tag = Some ''653'',
          parsed_subfields = Single (WithoutAttributes ''performance'')\<rparr>]\<rparr>"

definition sample_parser :: xml_parser where
  "sample_parser xml =
     (if xml = ''<marc:record>1</marc:record>'' then Some sample_unattributed else None)"

definition sample_categories :: "bulk_extract_item list" where
  "sample_categories =
     [\<lparr>item_name = ''performance'', item_count = 1, item_field = ''653''\<rparr>,
      \<lparr>item_name = ''Education'', item_count = 1, item_field = ''650''\<rparr>]"

definition sample_publication :: marc_record where
  "sample_publication =
     \<lparr>marc_datafield = Many
        [\<lparr>df_tag = Some ''260'', df_subfields = Many
            [\<lparr>sf_code = ''b'', sf_text = ''First Press''\<rparr>, \<lparr>sf_code = ''c'', sf_text = ''2001''\<rparr>]\<rparr>,
         \<lparr>df_tag = Some ''260'', df_subfields = Single \<lparr>sf_code = ''b'', sf_text = ''Second Press ''\<rparr>\<rparr>,
         \<lparr>df_tag = Some ''260'', df_subfields = Single \<lparr>sf_code = ''c'', sf_text = []\<rparr>\<rparr>]\<rparr>"

definition sample_counters :: parser_state where
  "sample_counters =
     \<lparr>st_subjectTerms =
        [(''History'', \<lparr>ce_count = 1, ce_code = None\<rparr>),
         (''Education'', \<lparr>ce_count = 3, ce_code = None\<rparr>),
         (''Law'', \<lparr>ce_count = 2, ce_code = None\<rparr>)],
      st_keywords =
        [(''performance'', \<lparr>ce_count = 2, ce_code = None\<rparr>),
         (''music'', \<lparr>ce_count = 1, ce_code = None\<rparr>)],
      st_totalRecords = 3\<rparr>"

definition sample_index :: download_index where
  "sample_index =
     [(''111'', \<lparr>entry_record = default_book_record\<lparr>bookUrl := ''http://h/1'', ISBN := Some ''111''\<rparr>,
               downloadState = Error, filePath = None,
               errorMessage = Some ''Request timeout'', downloadedAt = None\<rparr>),
      (''222'', \<lparr>entry_record = default_book_record\<lparr>bookUrl := ''http://h/2'', ISBN := Some ''222''\<rparr>,
               downloadState = Downloading, filePath = None,
               errorMessage = None, downloadedAt = None\<rparr>),
      (''333'', \<lparr>entry_record = default_book_record\<lparr>bookUrl := ''http://h/3'', ISBN := Some ''333''\<rparr>,
               downloadState = Done, filePath = Some ''out/333.pdf'',
               errorMessage = None, downloadedAt = Some ''2024-01-01T00:00:00.000Z''\<rparr>)]"

definition sample_results :: extract_results where
  "sample_results =
     \<lparr>er_field = ''650'', er_name = ''Education'',
      er_matchingRecords =
        [default_book_record\<lparr>title := ''No ISBN'', bookUrl := ''http://h/0''\<rparr>,
         default_book_record\<lparr>title := ''No URL'', ISBN := Some ''444''\<rparr>,
         default_book_record\<lparr>title := ''New'', bookUrl := ''http://h/5'', ISBN := Some ''5-55''\<rparr>,
         default_book_record\<lparr>title := ''Again'', bookUrl := ''http://h/3b'', ISBN := Some ''333''\<rparr>],
      er_totalMatches = 4, er_outputFile = []\<rparr>"

definition sample_inherited :: extract_results where
  "sample_inherited =
     \<lparr>er_field = ''650'', er_name = ''Programming'',
      er_matchingRecords =
        [default_book_record\<lparr>title := ''Objects'', bookUrl := ''http://h/c'',
                              ISBN := Some ''constructor''\<rparr>],
      er_totalMatches = 1, er_outputFile = []\<rparr>"




section \<open>The scanner: streaming agrees with cutting the whole file\<close>

declare scan_loop.simps [simp del] cut_segments.simps [simp del] unterminated_tail.simps [simp del]
lemma starts_with_append:
  "starts_with pat xs \<Longrightarrow> starts_with pat (xs @ ys)"
  unfolding starts_with_def
  by (metis append_eq_conv_conj append_assoc append_take_drop_id)

lemma starts_with_append_iff:
  "length pat \<le> length xs \<Longrightarrow> starts_with pat (xs @ ys) = starts_with pat xs"
  by (simp add: starts_with_def)

lemma first_occurrence_append:
  "first_occurrence pat xs = Some i \<Longrightarrow> first_occurrence pat (xs @ ys) = Some i"
proof (induction xs arbitrary: i)
  case Nil
  then show ?case by (cases ys) (simp_all add: starts_with_def split: if_splits)
next
  case (Cons c cs)
  from first_occurrence_bound [OF Cons.prems] have len: "length pat \<le> length (c # cs)"
    by simp
  have sw: "starts_with pat ((c # cs) @ ys) = starts_with pat (c # cs)"
    using len by (rule starts_with_append_iff)
  show ?case
  proof (cases "starts_with pat (c # cs)")
    case True
    with Cons.prems sw show ?thesis by simp
  next
    case False
    with Cons.prems obtain j where j: "first_occurrence pat cs = Some j" "i = Suc j"
      by auto
    from Cons.IH [OF j(1)] False sw j(2) show ?thesis by simp
  qed
qed

lemma cut_segments_append:
  "cut_segments (xs @ ys) = cut_segments xs @ cut_segments (unterminated_tail xs @ ys)"
proof (induction xs rule: cut_segments.induct)
  case (1 s)
  show ?case
  proof (cases "first_occurrence close_tag s")
    case None
    then show ?thesis
      by (simp add: cut_segments.simps [of s] unterminated_tail.simps [of s])
  next
    case (Some e)
    from first_occurrence_bound [OF Some] have le: "e + length close_tag \<le> length s" .
    from first_occurrence_append [OF Some] have app: "first_occurrence close_tag (s @ ys) = Some e" .
    from "1.IH" [OF Some]
    have "cut_segments (drop (e + length close_tag) s @ ys) =
          cut_segments (drop (e + length close_tag) s) @
          cut_segments (unterminated_tail (drop (e + length close_tag) s) @ ys)" .
    with Some app le show ?thesis
      by (simp add: cut_segments.simps [of s] cut_segments.simps [of "s @ ys"]
            unterminated_tail.simps [of s])
  qed
qed

lemma unterminated_tail_append:
  "unterminated_tail (xs @ ys) = unterminated_tail (unterminated_tail xs @ ys)"
proof (induction xs rule: unterminated_tail.induct)
  case (1 s)
  show ?case
  proof (cases "first_occurrence close_tag s")
    case None
    then show ?thesis
      by (simp add: unterminated_tail.simps [of s])
  next
    case (Some e)
    from first_occurrence_bound [OF Some] have le: "e + length close_tag \<le> length s" .
    from first_occurrence_append [OF Some] have app: "first_occurrence close_tag (s @ ys) = Some e" .
    from "1.IH" [OF Some] Some app le show ?thesis
      by (simp add: unterminated_tail.simps [of s] unterminated_tail.simps [of "s @ ys"])
  qed
qed


lemma indexOf_drop:
  "start \<le> length s \<Longrightarrow>
   indexOf s pat start = map_option (\<lambda>i. i + start) (first_occurrence pat (drop start s))"
  by (simp add: indexOf_def Let_def min_def)

lemma substring_take_drop:
  "a \<le> b \<Longrightarrow> b \<le> length s \<Longrightarrow> substring s a b = take (b - a) (drop a s)"
  by (simp add: substring_def Let_def min_def max_def)

lemma scan_loop_eq:
  "recordStart \<le> length buffer \<Longrightarrow>
   scan_loop on_record buffer recordStart st =
     (length buffer - length (unterminated_tail (drop recordStart buffer)),
      foldl (\<lambda>s fragment. on_record fragment s) st
        (concat (map fragment_of (cut_segments (drop recordStart buffer)))))"
proof (induction on_record buffer recordStart st rule: scan_loop.induct)
  case (1 on_record buffer recordStart st)
  let ?rest = "drop recordStart buffer"
  show ?case
  proof (cases "first_occurrence close_tag ?rest")
    case None
    with "1.prems" show ?thesis
      by (simp add: scan_loop.simps [of _ buffer recordStart] indexOf_drop
            cut_segments.simps [of ?rest] unterminated_tail.simps [of ?rest])
  next
    case (Some i)
    let ?n = "length close_tag"
    let ?recordEnd = "i + recordStart"
    let ?recordXml = "substring buffer recordStart (?recordEnd + ?n)"
    let ?st' = "case lastIndexOf ?recordXml open_tag of
                  Some recordStartTag \<Rightarrow> on_record (substring_from ?recordXml recordStartTag) st
                | None \<Rightarrow> st"
    have idx: "indexOf buffer close_tag recordStart = Some ?recordEnd"
      using "1.prems" Some by (simp add: indexOf_drop)
    from first_occurrence_bound [OF Some] "1.prems"
    have le: "?recordEnd + ?n \<le> length buffer"
      by simp
    have xml: "?recordXml = take (i + ?n) ?rest"
      using le by (simp add: substring_take_drop)
    have st': "?st' = foldl (\<lambda>s fragment. on_record fragment s) st (fragment_of (take (i + ?n) ?rest))"
      unfolding xml by (simp add: fragment_of_def substring_from_def split: option.split)
    have dr: "drop (?recordEnd + ?n) buffer = drop (i + ?n) ?rest"
      by (simp add: add.commute add.left_commute)
    from "1.IH" [OF idx refl refl le]
    have "scan_loop on_record buffer (?recordEnd + ?n) ?st' =
            (length buffer - length (unterminated_tail (drop (i + ?n) ?rest)),
             foldl (\<lambda>s fragment. on_record fragment s) ?st'
               (concat (map fragment_of (cut_segments (drop (i + ?n) ?rest)))))"
      unfolding dr .
    moreover have "scan_loop on_record buffer recordStart st =
                   scan_loop on_record buffer (?recordEnd + ?n) ?st'"
      by (subst scan_loop.simps) (simp add: idx Let_def)
    ultimately show ?thesis
      unfolding st'
      by (simp add: cut_segments.simps [of ?rest] unterminated_tail.simps [of ?rest] Some)
  qed
qed

lemma unterminated_tail_suffix:
  "\<exists>pre. s = pre @ unterminated_tail s"
proof (induction s rule: unterminated_tail.induct)
  case (1 s)
  show ?case
  proof (cases "first_occurrence close_tag s")
    case None
    then show ?thesis by (simp add: unterminated_tail.simps [of s])
  next
    case (Some e)
    from "1.IH" [OF Some] obtain pre
      where "drop (e + length close_tag) s = pre @ unterminated_tail (drop (e + length close_tag) s)"
      by blast
    then have "s = (take (e + length close_tag) s @ pre) @ unterminated_tail s"
      by (simp add: unterminated_tail.simps [of s] Some)
    then show ?thesis by blast
  qed
qed

lemma segments_concat:
  "concat (cut_segments s) @ unterminated_tail s = s"
proof (induction s rule: cut_segments.induct)
  case (1 s)
  show ?case
  proof (cases "first_occurrence close_tag s")
    case None
    then show ?thesis by (simp add: unterminated_tail.simps [of s] cut_segments.simps [of s])
  next
    case (Some e)
    from "1.IH" [OF Some] Some show ?thesis
      by (simp add: unterminated_tail.simps [of s] cut_segments.simps [of s])
  qed
qed

lemma tail_no_close_tag:
  "first_occurrence close_tag (unterminated_tail s) = None"
proof (induction s rule: unterminated_tail.induct)
  case (1 s)
  show ?case
  proof (cases "first_occurrence close_tag s")
    case None
    then show ?thesis by (simp add: unterminated_tail.simps [of s])
  next
    case (Some e)
    from "1.IH" [OF Some] Some show ?thesis
      by (simp add: unterminated_tail.simps [of s])
  qed
qed

lemma drop_to_tail:
  "drop (length s - length (unterminated_tail s)) s = unterminated_tail s"
proof -
  obtain pre where "s = pre @ unterminated_tail s"
    using unterminated_tail_suffix by blast
  then show ?thesis
    by (metis add_diff_cancel_right' append_eq_conv_conj length_append)
qed

lemma on_data_eq:
  "on_data on_record (buffer, st) chunk =
     (unterminated_tail (buffer @ chunk),
      foldl (\<lambda>s fragment. on_record fragment s) st
        (concat (map fragment_of (cut_segments (buffer @ chunk)))))"
  by (simp add: on_data_def scan_loop_eq substring_from_def drop_to_tail Let_def)

lemma foldl_on_data:
  "first_occurrence close_tag buffer = None \<Longrightarrow>
   foldl (on_data on_record) (buffer, st) chunks =
     (unterminated_tail (buffer @ concat chunks),
      foldl (\<lambda>s fragment. on_record fragment s) st
        (concat (map fragment_of (cut_segments (buffer @ concat chunks)))))"
proof (induction chunks arbitrary: buffer st)
  case Nil
  then show ?case
    by (simp add: unterminated_tail.simps [of buffer] cut_segments.simps [of buffer])
next
  case (Cons chunk chunks)
  have "cut_segments (unterminated_tail (buffer @ chunk)) = []"
    by (subst cut_segments.simps) (simp add: tail_no_close_tag)
  then have seg: "cut_segments (buffer @ chunk @ concat chunks) =
      cut_segments (buffer @ chunk) @ cut_segments (unterminated_tail (buffer @ chunk) @ concat chunks)"
    using cut_segments_append [of "buffer @ chunk" "concat chunks"] by simp
  have tl: "unterminated_tail (buffer @ chunk @ concat chunks) =
      unterminated_tail (unterminated_tail (buffer @ chunk) @ concat chunks)"
    using unterminated_tail_append [of "buffer @ chunk" "concat chunks"] by simp
  show ?case
    by (simp add: on_data_eq Cons.IH [OF tail_no_close_tag] seg tl)
qed

lemma read_stream_eq:
  "read_stream on_record chunks st =
     (unterminated_tail (concat chunks),
      foldl (\<lambda>s fragment. on_record fragment s) st
        (concat (map fragment_of (cut_segments (concat chunks)))))"
proof -
  have "first_occurrence close_tag [] = None"
    by (simp add: close_tag_def)
  from foldl_on_data [OF this] show ?thesis
    by (simp add: read_stream_def)
qed

lemma foldl_snoc_record: "foldl (\<lambda>s fragment. s @ [fragment]) acc fs = acc @ fs"
  by (induction fs arbitrary: acc) simp_all

lemma dispatched_fragments_eq:
  "dispatched_fragments chunks = concat (map fragment_of (cut_segments (concat chunks)))"
  by (simp add: dispatched_fragments_def read_stream_eq foldl_snoc_record)

lemma read_stream_dispatched:
  "snd (read_stream on_record chunks st) =
     foldl (\<lambda>s fragment. on_record fragment s) st (dispatched_fragments chunks)"
  by (simp add: dispatched_fragments_eq read_stream_eq)

lemma processXmlFile_dispatches:
  "processXmlFile parseString chunks st =
     foldl (\<lambda>st fragment. processRecord parseString fragment st) st (dispatched_fragments chunks)"
  by (simp add: processXmlFile_def read_stream_dispatched)

lemma concat_map_single:
  "\<forall>x \<in> set xs. f x = [x] \<Longrightarrow> concat (map f xs) = xs"
  by (induction xs) simp_all

text \<open>
  Claim C2, as stated: concatenating the dispatched fragments gives back the file minus
  its unterminated tail. It fails as soon as anything stands between two records: in the
  file below (read as one chunk) both records are dispatched and there is no unterminated
  tail, yet the blank between the records is lost, so the concatenation is not the file.
\<close>

theorem scanner_concat_counterexample:
  "dispatched_fragments [''<marc:record>a</marc:record> <marc:record>b</marc:record>'']
     = [''<marc:record>a</marc:record>'', ''<marc:record>b</marc:record>''] \<and>
   unterminated_tail ''<marc:record>a</marc:record> <marc:record>b</marc:record>'' = [] \<and>
   concat (dispatched_fragments [''<marc:record>a</marc:record> <marc:record>b</marc:record>''])
     @ unterminated_tail ''<marc:record>a</marc:record> <marc:record>b</marc:record>''
     \<noteq> ''<marc:record>a</marc:record> <marc:record>b</marc:record>''"
  by code_simp

text \<open>
  Claim C2, amended. However the file is split into chunks, the scanner behaves as if it
  cut the whole file right after each closing marker: the segments followed by the
  unterminated tail are the file, the tail holds no closing marker and is never
  dispatched, and the fragments dispatched are, in order, what \<open>fragment_of\<close> keeps of
  each segment: the text from the segment's last opening marker on, nothing for a segment
  without opening marker. So the concatenation of the fragments is the file minus the
  unterminated tail and minus the text in front of each fragment's opening marker; it is
  the file minus the tail when every segment starts with its last opening marker.
\<close>

theorem scanner_dispatches_fragments_of_segments:
  "dispatched_fragments chunks = concat (map fragment_of (cut_segments (concat chunks))) \<and>
   concat (cut_segments (concat chunks)) @ unterminated_tail (concat chunks) = concat chunks \<and>
   \<not> str_includes (unterminated_tail (concat chunks)) close_tag \<and>
   ((\<forall>segment \<in> set (cut_segments (concat chunks)). lastIndexOf segment open_tag = Some 0) \<longrightarrow>
      concat (dispatched_fragments chunks) @ unterminated_tail (concat chunks) = concat chunks)"
proof -
  let ?file = "concat chunks"
  have fragments: "dispatched_fragments chunks = concat (map fragment_of (cut_segments ?file))"
    by (rule dispatched_fragments_eq)
  have whole: "concat (cut_segments ?file) @ unterminated_tail ?file = ?file"
    by (rule segments_concat)
  have tail: "\<not> str_includes (unterminated_tail ?file) close_tag"
    by (simp add: str_includes_def tail_no_close_tag)
  have "concat (dispatched_fragments chunks) @ unterminated_tail ?file = ?file"
    if starts: "\<forall>segment \<in> set (cut_segments ?file). lastIndexOf segment open_tag = Some 0"
  proof -
    have "\<forall>segment \<in> set (cut_segments ?file). fragment_of segment = [segment]"
      using starts by (simp add: fragment_of_def)
    then have "concat (map fragment_of (cut_segments ?file)) = cut_segments ?file"
      by (rule concat_map_single)
    with fragments whole show ?thesis by simp
  qed
  with fragments whole tail show ?thesis by blast
qed

text \<open>
  An instance for claim C2: two adjacent records and the beginning of a third, read in
  two chunks that split the first closing marker. Both records are dispatched whole, and
  with the tail they make up the file.
\<close>

theorem scanner_dispatches_fragments_witness:
  "cut_segments (concat [''<marc:record>a</marc:rec'', ''ord><marc:record>b</marc:record><marc:re''])
     = [''<marc:record>a</marc:record>'', ''<marc:record>b</marc:record>''] \<and>
   lastIndexOf ''<marc:record>a</marc:record>'' open_tag = Some 0 \<and>
   lastIndexOf ''<marc:record>b</marc:record>'' open_tag = Some 0 \<and>
   dispatched_fragments [''<marc:record>a</marc:rec'', ''ord><marc:record>b</marc:record><marc:re'']
     = [''<marc:record>a</marc:record>'', ''<marc:record>b</marc:record>''] \<and>
   concat (dispatched_fragments
             [''<marc:record>a</marc:rec'', ''ord><marc:record>b</marc:record><marc:re''])
     @ unterminated_tail
         (concat [''<marc:record>a</marc:rec'', ''ord><marc:record>b</marc:record><marc:re''])
     = concat [''<marc:record>a</marc:rec'', ''ord><marc:record>b</marc:record><marc:re'']"
proof -
  let ?chunks = "[''<marc:record>a</marc:rec'', ''ord><marc:record>b</marc:record><marc:re'']"
  have segments: "cut_segments (concat ?chunks)
      = [''<marc:record>a</marc:record>'', ''<marc:record>b</marc:record>'']"
    by code_simp
  have first: "lastIndexOf ''<marc:record>a</marc:record>'' open_tag = Some 0"
    and second: "lastIndexOf ''<marc:record>b</marc:record>'' open_tag = Some 0"
    by code_simp+
  with segments
  have starts: "\<forall>segment \<in> set (cut_segments (concat ?chunks)).
      lastIndexOf segment open_tag = Some 0"
    by simp
  have "fragment_of ''<marc:record>a</marc:record>'' = [''<marc:record>a</marc:record>'']"
    and "fragment_of ''<marc:record>b</marc:record>'' = [''<marc:record>b</marc:record>'']"
    by code_simp+
  with segments first second starts scanner_dispatches_fragments_of_segments [of ?chunks]
  show ?thesis by simp
qed

section \<open>Multi-category matching and single-criterion extraction\<close>

lemma matches_filter_eq_criteria:
  "recordMatchesCategoryFilter record field name =
   recordMatchesCriteria record \<lparr>opt_field = field, opt_name = name\<rparr>"
  by (simp add: recordMatchesCategoryFilter_def recordMatchesCriteria_def)

lemma initial_buckets:
  "foldl (\<lambda>buckets category. buckets(category_key category \<mapsto> [])) buckets categories key =
     (if key \<in> category_key ` set categories then Some [] else buckets key)"
  by (induction categories arbitrary: buckets) auto

lemma bucket_after_record:
  assumes "distinct (map category_key categories)"
    and "list_all (\<lambda>category.
                     recordMatchesCategoryFilter record (item_field category) (item_name category)
                       \<noteq> None)
           categories"
    and "convertToBookRecord_parsed record = Some bookRecord"
  shows "match_categories record categories buckets key =
         (case buckets key of
            None \<Rightarrow> None
          | Some bucket \<Rightarrow>
              if list_ex (\<lambda>category. category_key category = key \<and>
                     recordMatchesCategoryFilter record (item_field category) (item_name category)
                       = Some True)
                   categories
              then Some (bucket @ [bookRecord])
              else Some bucket)"
  using assms(1,2)
proof (induction categories arbitrary: buckets)
  case Nil
  then show ?case by (simp split: option.split)
next
  case (Cons category categories)
  from Cons.prems(1) have fresh: "\<forall>other \<in> set categories. category_key other \<noteq> category_key category"
    and rest: "distinct (map category_key categories)"
    by (auto simp: image_iff)
  from Cons.prems(2) obtain matches
    where test: "recordMatchesCategoryFilter record (item_field category) (item_name category)
                   = Some matches"
      and tests: "list_all (\<lambda>category.
                     recordMatchesCategoryFilter record (item_field category) (item_name category)
                       \<noteq> None)
           categories"
    by auto
  from fresh have no_other: "key = category_key category \<Longrightarrow>
      \<not> list_ex (\<lambda>other. category_key other = key \<and>
             recordMatchesCategoryFilter record (item_field other) (item_name other) = Some True)
           categories"
    by (auto simp: list_ex_iff)
  show ?case
    using no_other test assms(3)
    by (auto simp: Cons.IH [OF rest tests] Let_def split: option.split)
qed

lemma processRecordForAllCategories_bucket:
  assumes "distinct (map category_key categories)"
    and "category \<in> set categories"
    and "buckets (category_key category) = Some bucket"
    and "\<And>parsed. parseString recordXml = Some parsed \<Longrightarrow> extracts_cleanly categories parsed"
  shows "processRecordForAllCategories parseString recordXml categories buckets
           (category_key category) =
         Some (processRecordForExtraction parseString recordXml (criteria_of category) bucket)"
proof (cases "parseString recordXml")
  case None
  with assms(3) show ?thesis
    by (simp add: processRecordForAllCategories_def processRecordForExtraction_def)
next
  case (Some parsed)
  from assms(4) [OF Some] obtain bookRecord
    where tests: "list_all (\<lambda>category.
                     recordMatchesCategoryFilter parsed (item_field category) (item_name category)
                       \<noteq> None)
           categories"
      and converted: "convertToBookRecord_parsed parsed = Some bookRecord"
    by (auto simp: extracts_cleanly_def)
  from tests assms(2) obtain matches
    where test: "recordMatchesCategoryFilter parsed (item_field category) (item_name category)
                   = Some matches"
    by (auto simp: list_all_iff)
  let ?hit = "\<lambda>other. category_key other = category_key category \<and>
                recordMatchesCategoryFilter parsed (item_field other) (item_name other)
                  = Some True"
  have "inj_on category_key (set categories)"
    using assms(1) by (simp add: distinct_map)
  then have same: "other = category \<or> category_key other \<noteq> category_key category"
    if "other \<in> set categories" for other
    using assms(2) that by (auto dest: inj_onD)
  have "list_ex ?hit categories = matches"
  proof
    assume "list_ex ?hit categories"
    then obtain other where other: "other \<in> set categories" and hit: "?hit other"
      by (auto simp: list_ex_iff)
    from same [OF other] hit have "other = category"
      by blast
    with hit test show matches
      by simp
  next
    assume matches
    with test assms(2) show "list_ex ?hit categories"
      by (auto simp: list_ex_iff)
  qed
  with assms(3) bucket_after_record [OF assms(1) tests converted, of buckets "category_key category"]
  have "match_categories parsed categories buckets (category_key category) =
         (if matches then Some (bucket @ [bookRecord]) else Some bucket)"
    by simp
  then have "processRecordForAllCategories parseString recordXml categories buckets
          (category_key category) =
        (if matches then Some (bucket @ [bookRecord]) else Some bucket)"
    using Some by (simp add: processRecordForAllCategories_def)
  also have "\<dots> = Some (processRecordForExtraction parseString recordXml
                           (criteria_of category) bucket)"
    using Some test converted
    by (simp add: processRecordForExtraction_def matches_filter_eq_criteria [symmetric]
          criteria_of_def)
  finally show ?thesis .
qed

lemma buckets_after_fragments:
  assumes "distinct (map category_key categories)"
    and "category \<in> set categories"
    and "\<And>fragment parsed. parseString fragment = Some parsed \<Longrightarrow>
           extracts_cleanly categories parsed"
  shows "buckets (category_key category) = Some bucket \<Longrightarrow>
         foldl (\<lambda>buckets fragment.
                  processRecordForAllCategories parseString fragment categories buckets)
           buckets fragments (category_key category) =
         Some (foldl (\<lambda>acc fragment.
                        processRecordForExtraction parseString fragment (criteria_of category) acc)
                 bucket fragments)"
proof (induction fragments arbitrary: buckets bucket)
  case Nil
  then show ?case by simp
next
  case (Cons fragment fragments)
  have "processRecordForAllCategories parseString fragment categories buckets
          (category_key category) =
        Some (processRecordForExtraction parseString fragment (criteria_of category) bucket)"
    using assms(1,2) Cons.prems assms(3) by (rule processRecordForAllCategories_bucket)
  then have "foldl (\<lambda>buckets fragment.
                  processRecordForAllCategories parseString fragment categories buckets)
           (processRecordForAllCategories parseString fragment categories buckets)
           fragments (category_key category) =
         Some (foldl (\<lambda>acc fragment.
                        processRecordForExtraction parseString fragment (criteria_of category) acc)
                 (processRecordForExtraction parseString fragment (criteria_of category) bucket)
                 fragments)"
    by (rule Cons.IH)
  then show ?case by simp
qed

text \<open>
  Category definitions that passed the validation of \<^verbatim>\<open>bulkExtractRecords\<close> (field 650 or
  653) and differ in field or name have different bucket keys.
\<close>

lemma validated_categories_have_distinct_keys:
  assumes fields: "\<forall>category \<in> set categories. item_field category \<in> {''650'', ''653''}"
    and pairs: "distinct (map (\<lambda>category. (item_field category, item_name category)) categories)"
  shows "distinct (map category_key categories)"
proof -
  have "inj_on category_key (set categories)"
  proof (rule inj_onI)
    fix c c'
    assume c: "c \<in> set categories" and c': "c' \<in> set categories"
      and same: "category_key c = category_key c'"
    from fields c have "length (item_field c) = 3"
      by auto
    moreover from fields c' have "length (item_field c') = 3"
      by auto
    ultimately have "length (item_field c) = length (item_field c')"
      by simp
    with same have "item_field c = item_field c'" "item_name c = item_name c'"
      by (simp_all add: category_key_def)
    then have eq: "(\<lambda>category. (item_field category, item_name category)) c =
                   (\<lambda>category. (item_field category, item_name category)) c'"
      by simp
    from pairs have "inj_on (\<lambda>category. (item_field category, item_name category))
                       (set categories)"
      by (simp add: distinct_map)
    from this eq c c' show "c = c'"
      by (rule inj_onD)
  qed
  moreover from pairs have "distinct categories"
    by (simp add: distinct_map)
  ultimately show ?thesis
    by (simp add: distinct_map)
qed

text \<open>
  When no record of the file makes a match test or the mapper throw, the single pass and
  the single-criterion extraction agree: for category definitions no two of which share a
  bucket key \<^verbatim>\<open>field:name\<close>, the bucket the single pass fills for a category holds
  exactly the records, in the same order, that \<^verbatim>\<open>extractRecords\<close> returns for that
  category's field and name on the same file, however the file is split into chunks in
  either of the two reads.
\<close>

lemma single_pass_equals_per_category_unless_thrown:
  assumes "distinct (map category_key categories)"
    and "category \<in> set categories"
    and "concat chunks' = concat chunks"
    and "\<And>fragment parsed. parseString fragment = Some parsed \<Longrightarrow>
           extracts_cleanly categories parsed"
  shows "extractAllCategoriesInSinglePass parseString chunks categories (category_key category) =
         Some (er_matchingRecords
                 (extractRecords parseString chunks'
                    \<lparr>opt_field = item_field category, opt_name = item_name category\<rparr>))"
proof -
  let ?init = "foldl (\<lambda>buckets category. buckets(category_key category \<mapsto> []))
                 Map.empty categories"
  have same_fragments: "dispatched_fragments chunks' = dispatched_fragments chunks"
    using assms(3) by (simp add: dispatched_fragments_eq)
  have "?init (category_key category) = Some []"
    using assms(2) by (simp add: initial_buckets)
  with assms(1,2,4)
  have "foldl (\<lambda>buckets fragment.
                  processRecordForAllCategories parseString fragment categories buckets)
           ?init (dispatched_fragments chunks) (category_key category) =
         Some (foldl (\<lambda>acc fragment.
                        processRecordForExtraction parseString fragment (criteria_of category) acc)
                 [] (dispatched_fragments chunks))"
    by (rule buckets_after_fragments)
  then show ?thesis
    by (simp add: extractAllCategoriesInSinglePass_def extractRecords_def
          processXmlFileForExtraction_def read_stream_dispatched same_fragments
          criteria_of_def Let_def)
qed

lemma visit_until_attributed:
  "list_all has_attributes elements \<Longrightarrow> visit_until stop elements \<noteq> None"
  by (induction stop elements rule: visit_until.induct) (auto simp: has_attributes_def)

lemma visit_all_attributed:
  "list_all has_attributes elements \<Longrightarrow> visit_all elements \<noteq> None"
  by (induction elements rule: visit_all.induct) (auto simp: has_attributes_def)

lemma matching_field_attributed:
  "list_all (\<lambda>dataField. list_all has_attributes (elements_of (parsed_subfields dataField)))
     dataFields \<Longrightarrow>
   matching_field field name dataFields \<noteq> None"
proof (induction dataFields)
  case Nil
  then show ?case by simp
next
  case (Cons dataField dataFields)
  from Cons.prems
  have "visit_until (\<lambda>subField. has_code ''a'' subField \<and> trim (sf_text subField) = name)
          (elements_of (parsed_subfields dataField)) \<noteq> None"
    by (simp add: visit_until_attributed)
  with Cons show ?case
    by (auto split: option.split)
qed

lemma visited_subfields_attributed:
  assumes "list_all has_attributes elements"
  shows "visited_subfields tag bookRecord elements \<noteq> None"
  using visit_until_attributed [OF assms, of "has_code ''a''"] visit_all_attributed [OF assms]
  by (auto simp: visited_subfields_def)

lemma convert_parsed_fields_attributed:
  "list_all (\<lambda>dataField. list_all has_attributes (elements_of (parsed_subfields dataField)))
     dataFields \<Longrightarrow>
   convert_parsed_fields bookRecord dataFields \<noteq> None"
proof (induction dataFields arbitrary: bookRecord)
  case Nil
  then show ?case by simp
next
  case (Cons dataField dataFields)
  show ?case
  proof (cases "parsed_tag dataField")
    case None
    with Cons show ?thesis by simp
  next
    case (Some tag)
    from Cons.prems
    have "visited_subfields tag bookRecord (elements_of (parsed_subfields dataField)) \<noteq> None"
      by (simp add: visited_subfields_attributed)
    then obtain subFields
      where "visited_subfields tag bookRecord (elements_of (parsed_subfields dataField))
               = Some subFields"
      by blast
    with Some Cons show ?thesis
      by simp
  qed
qed

lemma fully_attributed_extracts_cleanly:
  assumes "fully_attributed record"
  shows "extracts_cleanly categories record"
proof -
  from assms
  have fields: "list_all (\<lambda>dataField. list_all has_attributes
                                       (elements_of (parsed_subfields dataField)))
                  (as_array (parsed_datafields record))"
    by (simp add: fully_attributed_def)
  have "recordMatchesCategoryFilter record field name \<noteq> None" for field name
    using matching_field_attributed [OF fields, of field name]
    by (auto simp: recordMatchesCategoryFilter_def)
  moreover have "convertToBookRecord_parsed record \<noteq> None"
    using convert_parsed_fields_attributed [OF fields, of default_book_record]
    by (auto simp: convertToBookRecord_parsed_def)
  ultimately show ?thesis
    unfolding extracts_cleanly_def list_all_iff by blast
qed

lemma single_pass_equals_per_category_attributed:
  assumes "distinct (map category_key categories)"
    and "category \<in> set categories"
    and "concat chunks' = concat chunks"
    and "\<And>fragment parsed. parseString fragment = Some parsed \<Longrightarrow> fully_attributed parsed"
  shows "extractAllCategoriesInSinglePass parseString chunks categories (category_key category) =
         Some (er_matchingRecords
                 (extractRecords parseString chunks'
                    \<lparr>opt_field = item_field category, opt_name = item_name category\<rparr>))"
  using assms(1-3)
  by (rule single_pass_equals_per_category_unless_thrown)
     (rule fully_attributed_extracts_cleanly, rule assms(4))

text \<open>
  On a record all of whose subfields have attributes the mapper returns, with the book
  record that \<open>convertToBookRecord\<close> describes.
\<close>

lemma elements_of_attributed:
  "elements_of (map_xml_children WithAttributes children) = map WithAttributes (as_array children)"
  by (cases children) (simp_all add: elements_of_def)

lemma as_array_map:
  "as_array (map_xml_children f children) = map f (as_array children)"
  by (cases children) simp_all

lemma visit_all_map: "visit_all (map WithAttributes subFields) = Some subFields"
  by (induction subFields) simp_all

lemma visit_until_map:
  "\<exists>visited. visit_until stop (map WithAttributes subFields) = Some visited \<and>
             find stop visited = find stop subFields"
  by (induction subFields) auto

lemma convert_field_find:
  assumes "find (has_code ''a'') visited = find (has_code ''a'') subFields"
    and "tag = ''020'' \<or> tag = ''300'' \<or> tag = ''520'' \<or> tag = ''546''"
  shows "convert_field tag visited bookRecord = convert_field tag subFields bookRecord"
  using assms(2,1) by (elim disjE) (simp_all add: convert_field_def)

lemma convert_field_unread:
  assumes "tag \<noteq> ''020''" "tag \<noteq> ''100''" "tag \<noteq> ''700''" "tag \<noteq> ''245''" "tag \<noteq> ''260''"
    "tag \<noteq> ''300''" "tag \<noteq> ''520''" "tag \<noteq> ''540''" "tag \<noteq> ''546''" "tag \<noteq> ''856''"
  shows "convert_field tag subFields bookRecord = bookRecord"
  using assms by (simp add: convert_field_def)

lemma convert_field_visited:
  assumes "visited_subfields tag bookRecord (map WithAttributes subFields) = Some visited"
  shows "convert_field tag visited bookRecord = convert_field tag subFields bookRecord"
proof -
  obtain upto where upto: "visit_until (has_code ''a'') (map WithAttributes subFields) = Some upto"
    and same: "find (has_code ''a'') upto = find (has_code ''a'') subFields"
    using visit_until_map [of "has_code ''a''" subFields] by blast
  consider (isbn) "tag = ''020''" | (break) "tag = ''300'' \<or> tag = ''520'' \<or> tag = ''546''"
    | (all) "tag = ''100'' \<or> tag = ''700'' \<or> tag = ''245'' \<or> tag = ''260'' \<or>
             tag = ''540'' \<or> tag = ''856''"
    | (other) "tag \<noteq> ''020''" "tag \<noteq> ''100''" "tag \<noteq> ''700''" "tag \<noteq> ''245''"
        "tag \<noteq> ''260''" "tag \<noteq> ''300''" "tag \<noteq> ''520''" "tag \<noteq> ''540''" "tag \<noteq> ''546''"
        "tag \<noteq> ''856''"
    by blast
  then show ?thesis
  proof cases
    case isbn
    show ?thesis
    proof (cases "truthy_opt (ISBN bookRecord)")
      case True
      with isbn show ?thesis by (simp add: convert_field_def)
    next
      case False
      with isbn assms upto have "visited = upto"
        by (simp add: visited_subfields_def)
      with same show ?thesis
        using isbn by (intro convert_field_find) simp_all
    qed
  next
    case break
    with assms upto have "visited = upto"
      by (elim disjE) (simp_all add: visited_subfields_def)
    with same show ?thesis
      using break by (intro convert_field_find) auto
  next
    case all
    with assms have "visited = subFields"
      by (elim disjE) (simp_all add: visited_subfields_def visit_all_map)
    then show ?thesis by simp
  next
    case other
    then show ?thesis
      by (simp add: convert_field_unread)
  qed
qed

lemma convert_parsed_fields_map:
  "convert_parsed_fields bookRecord
     (map (\<lambda>dataField. \<lparr>parsed_tag = df_tag dataField,
                         parsed_subfields = map_xml_children WithAttributes (df_subfields dataField)\<rparr>)
        dataFields) =
   Some (foldl convert_datafield bookRecord dataFields)"
proof (induction dataFields arbitrary: bookRecord)
  case Nil
  then show ?case by simp
next
  case (Cons dataField dataFields)
  show ?case
  proof (cases "df_tag dataField")
    case None
    with Cons show ?thesis
      by (simp add: convert_datafield_def)
  next
    case (Some tag)
    have "visited_subfields tag bookRecord (map WithAttributes (as_array (df_subfields dataField)))
            \<noteq> None"
      by (rule visited_subfields_attributed) (simp add: list_all_iff has_attributes_def)
    then obtain visited
      where visited: "visited_subfields tag bookRecord
                        (map WithAttributes (as_array (df_subfields dataField))) = Some visited"
      by blast
    from convert_field_visited [OF visited] visited Some Cons show ?thesis
      by (simp add: convert_datafield_def elements_of_attributed)
  qed
qed

lemma convertToBookRecord_parsed_attributed:
  "convertToBookRecord_parsed (as_parsed record) = Some (convertToBookRecord record)"
proof (cases "marc_datafield record")
  case Absent
  then show ?thesis
    by (simp add: convertToBookRecord_parsed_def convertToBookRecord_def as_parsed_def)
next
  case (Single dataField)
  then show ?thesis
    using convert_parsed_fields_map [of default_book_record "[dataField]"]
    by (simp add: convertToBookRecord_parsed_def convertToBookRecord_def as_parsed_def)
next
  case (Many dataFields)
  then show ?thesis
    using convert_parsed_fields_map [of default_book_record dataFields]
    by (simp add: convertToBookRecord_parsed_def convertToBookRecord_def as_parsed_def)
qed

lemma as_parsed_fully_attributed: "fully_attributed (as_parsed record)"
  by (simp add: fully_attributed_def as_parsed_def as_array_map list_all_iff
        elements_of_attributed has_attributes_def)

text \<open>
  Claim C1. For categories that do not overlap, the bucket the single pass fills for a
  category is to hold the records a single-criterion extraction returns for it. The
  record of \<open>sample_parser\<close> has a field 650 with subject \<^verbatim>\<open>Education\<close> and a field 653
  whose subfield has no attributes. The single-criterion extraction for
  \<^verbatim>\<open>650:Education\<close> returns it. In the single pass over the categories
  \<^verbatim>\<open>653:performance\<close>, \<^verbatim>\<open>650:Education\<close> the match test of the first category throws on the
  field 653, the exception ends the loop over the categories, and the bucket of
  \<^verbatim>\<open>650:Education\<close> stays empty; with the two categories in the other order the bucket
  holds the record.
\<close>

theorem single_pass_drops_categories_after_exception:
  "distinct (map category_key sample_categories) \<and>
   recordMatchesCategoryFilter sample_unattributed ''653'' ''performance'' = None \<and>
   er_matchingRecords
     (extractRecords sample_parser [''<marc:record>1</marc:record>'']
        \<lparr>opt_field = ''650'', opt_name = ''Education''\<rparr>) =
     [default_book_record\<lparr>title := ''Atlas''\<rparr>] \<and>
   extractAllCategoriesInSinglePass sample_parser [''<marc:record>1</marc:record>'']
     sample_categories ''650:Education'' = Some [] \<and>
   extractAllCategoriesInSinglePass sample_parser [''<marc:record>1</marc:record>'']
     (rev sample_categories) ''650:Education'' = Some [default_book_record\<lparr>title := ''Atlas''\<rparr>]"
  by code_simp

section \<open>Book Record Mapper: which occurrence wins\<close>

lemma foldl_add_author_frame [simp]:
  "publisher (foldl add_author b sfs) = publisher b"
  "publicationDate (foldl add_author b sfs) = publicationDate b"
  "ISBN (foldl add_author b sfs) = ISBN b"
  "description (foldl add_author b sfs) = description b"
  by (induction sfs arbitrary: b; simp add: add_author_def Let_def)+

lemma foldl_set_licence_frame [simp]:
  "publisher (foldl set_licence b sfs) = publisher b"
  "publicationDate (foldl set_licence b sfs) = publicationDate b"
  "ISBN (foldl set_licence b sfs) = ISBN b"
  "description (foldl set_licence b sfs) = description b"
  by (induction sfs arbitrary: b; simp add: set_licence_def)+

lemma foldl_set_publication_frame [simp]:
  "ISBN (foldl set_publication b sfs) = ISBN b"
  "description (foldl set_publication b sfs) = description b"
  by (induction sfs arbitrary: b; simp add: set_publication_def)+

lemma has_code_b_not_c [simp]: "has_code ''b'' sf \<Longrightarrow> \<not> has_code ''c'' sf"
  by (simp add: has_code_def)

lemma foldl_set_publication_publisher:
  "publisher (foldl set_publication b sfs) =
     (if list_ex (has_code ''b'') sfs
      then trim (sf_text (last (filter (has_code ''b'') sfs)))
      else publisher b)"
proof (induction sfs rule: rev_induct)
  case Nil
  then show ?case by simp
next
  case (snoc sf sfs)
  then show ?case
    by (simp add: set_publication_def)
qed

lemma foldl_set_publication_date:
  "publicationDate (foldl set_publication b sfs) =
     (if list_ex (has_code ''c'') sfs
      then Some (trim (sf_text (last (filter (has_code ''c'') sfs))))
      else publicationDate b)"
proof (induction sfs rule: rev_induct)
  case Nil
  then show ?case by simp
next
  case (snoc sf sfs)
  then show ?case
    by (simp add: set_publication_def)
qed

lemma convert_field_publisher:
  "publisher (convert_field tag sfs b) =
     (if tag = ''260'' \<and> list_ex (has_code ''b'') sfs
      then trim (sf_text (last (filter (has_code ''b'') sfs)))
      else publisher b)"
  by (simp add: convert_field_def foldl_set_publication_publisher Let_def
        split: option.split prod.split)

lemma convert_field_publicationDate:
  "publicationDate (convert_field tag sfs b) =
     (if tag = ''260'' \<and> list_ex (has_code ''c'') sfs
      then Some (trim (sf_text (last (filter (has_code ''c'') sfs))))
      else publicationDate b)"
  by (simp add: convert_field_def foldl_set_publication_date Let_def
        split: option.split prod.split)

lemma convert_datafield_publisher:
  "publisher (convert_datafield b d) =
     (if carries ''260'' ''b'' d then last_value ''b'' d else publisher b)"
  by (cases "df_tag d")
     (simp_all add: convert_datafield_def convert_field_publisher carries_def last_value_def)

lemma convert_datafield_publicationDate:
  "publicationDate (convert_datafield b d) =
     (if carries ''260'' ''c'' d then Some (last_value ''c'' d) else publicationDate b)"
  by (cases "df_tag d")
     (simp_all add: convert_datafield_def convert_field_publicationDate carries_def last_value_def)

lemma foldl_convert_publisher:
  "publisher (foldl convert_datafield b dfs) =
     (if filter (carries ''260'' ''b'') dfs = [] then publisher b
      else last_value ''b'' (last (filter (carries ''260'' ''b'') dfs)))"
  by (induction dfs rule: rev_induct) (simp_all add: convert_datafield_publisher)

lemma foldl_convert_publicationDate:
  "publicationDate (foldl convert_datafield b dfs) =
     (if filter (carries ''260'' ''c'') dfs = [] then publicationDate b
      else Some (last_value ''c'' (last (filter (carries ''260'' ''c'') dfs))))"
  by (induction dfs rule: rev_induct) (simp_all add: convert_datafield_publicationDate)

text \<open>
  Claim C5. The publisher of the mapped record is the trimmed text of the last subfield
  \<^verbatim>\<open>b\<close> (with text) of the last field 260 occurrence, in document order, that carries
  one, and the publication date likewise for subfield \<^verbatim>\<open>c\<close>; the two are found
  independently of each other. A later occurrence overwrites an earlier one. When no
  occurrence carries the subfield the default (empty publisher, no date) stays.
\<close>

theorem publisher_and_date_from_last_260:
  "(carrying ''260'' ''b'' record \<noteq> [] \<longrightarrow>
      publisher (convertToBookRecord record) = last_value ''b'' (last (carrying ''260'' ''b'' record))) \<and>
   (carrying ''260'' ''c'' record \<noteq> [] \<longrightarrow>
      publicationDate (convertToBookRecord record) =
        Some (last_value ''c'' (last (carrying ''260'' ''c'' record)))) \<and>
   (carrying ''260'' ''b'' record = [] \<longrightarrow> publisher (convertToBookRecord record) = []) \<and>
   (carrying ''260'' ''c'' record = [] \<longrightarrow> publicationDate (convertToBookRecord record) = None)"
proof (cases "marc_datafield record = Absent")
  case True
  then show ?thesis
    by (simp add: convertToBookRecord_def carrying_def default_book_record_def)
next
  case False
  then show ?thesis
    by (simp add: convertToBookRecord_def carrying_def foldl_convert_publisher
          foldl_convert_publicationDate default_book_record_def)
qed

text \<open>
  An instance for claim C5: the publisher comes from the second field 260 occurrence, the
  last one with a subfield \<^verbatim>\<open>b\<close>, and the date from the first, the only one whose subfield
  \<^verbatim>\<open>c\<close> has text.
\<close>

theorem publisher_and_date_witness:
  "carrying ''260'' ''b'' sample_publication \<noteq> [] \<and>
   last (carrying ''260'' ''b'' sample_publication) =
     \<lparr>df_tag = Some ''260'', df_subfields = Single \<lparr>sf_code = ''b'', sf_text = ''Second Press ''\<rparr>\<rparr> \<and>
   publisher (convertToBookRecord sample_publication) = ''Second Press'' \<and>
   carrying ''260'' ''c'' sample_publication \<noteq> [] \<and>
   last (carrying ''260'' ''c'' sample_publication) =
     \<lparr>df_tag = Some ''260'', df_subfields = Many
        [\<lparr>sf_code = ''b'', sf_text = ''First Press''\<rparr>, \<lparr>sf_code = ''c'', sf_text = ''2001''\<rparr>]\<rparr> \<and>
   publicationDate (convertToBookRecord sample_publication) = Some ''2001''"
proof -
  have b: "carrying ''260'' ''b'' sample_publication =
      [\<lparr>df_tag = Some ''260'', df_subfields = Many
          [\<lparr>sf_code = ''b'', sf_text = ''First Press''\<rparr>, \<lparr>sf_code = ''c'', sf_text = ''2001''\<rparr>]\<rparr>,
       \<lparr>df_tag = Some ''260'', df_subfields = Single \<lparr>sf_code = ''b'', sf_text = ''Second Press ''\<rparr>\<rparr>]"
    by code_simp
  have c: "carrying ''260'' ''c'' sample_publication =
      [\<lparr>df_tag = Some ''260'', df_subfields = Many
          [\<lparr>sf_code = ''b'', sf_text = ''First Press''\<rparr>, \<lparr>sf_code = ''c'', sf_text = ''2001''\<rparr>]\<rparr>]"
    by code_simp
  have vb: "last_value ''b''
      \<lparr>df_tag = Some ''260'', df_subfields = Single \<lparr>sf_code = ''b'', sf_text = ''Second Press ''\<rparr>\<rparr>
      = ''Second Press''"
    by code_simp
  have vc: "last_value ''c''
      \<lparr>df_tag = Some ''260'', df_subfields = Many
          [\<lparr>sf_code = ''b'', sf_text = ''First Press''\<rparr>, \<lparr>sf_code = ''c'', sf_text = ''2001''\<rparr>]\<rparr>
      = ''2001''"
    by code_simp
  from publisher_and_date_from_last_260 [of sample_publication] b c vb vc
  show ?thesis by simp
qed

text \<open>
  The description, like the publisher, comes from the last field 520 occurrence that
  carries a subfield \<^verbatim>\<open>a\<close>: the 520 branch has no guard against overwriting. The ISBN
  comes from the first field 020 occurrence that carries one, provided its trimmed text
  is not empty: the 020 branch is guarded by \<^verbatim>\<open>if (!bookRecord.ISBN)\<close>.
\<close>

lemma find_Some_hd:
  "find P xs = Some y \<Longrightarrow> hd (filter P xs) = y \<and> list_ex P xs"
  by (induction xs) (auto split: if_splits)

lemma find_None_ex:
  "find P xs = None \<longleftrightarrow> \<not> list_ex P xs"
  by (induction xs) auto

lemma convert_field_description:
  "description (convert_field tag sfs b) =
     (if tag = ''520'' \<and> list_ex (has_code ''a'') sfs
      then Some (trim (sf_text (hd (filter (has_code ''a'') sfs))))
      else description b)"
proof (cases "find (has_code ''a'') sfs")
  case None
  then have "\<not> list_ex (has_code ''a'') sfs"
    by (simp add: find_None_ex)
  with None show ?thesis
    by (simp add: convert_field_def Let_def split: option.split prod.split)
next
  case (Some sf)
  from find_Some_hd [OF this] Some show ?thesis
    by (simp add: convert_field_def Let_def split: option.split prod.split)
qed

lemma convert_datafield_description:
  "description (convert_datafield b d) =
     (if carries ''520'' ''a'' d then Some (first_value ''a'' d) else description b)"
  by (cases "df_tag d")
     (simp_all add: convert_datafield_def convert_field_description carries_def first_value_def)

lemma foldl_convert_description:
  "description (foldl convert_datafield b dfs) =
     (if filter (carries ''520'' ''a'') dfs = [] then description b
      else Some (first_value ''a'' (last (filter (carries ''520'' ''a'') dfs))))"
  by (induction dfs rule: rev_induct) (simp_all add: convert_datafield_description)

lemma description_from_last_520:
  "description (convertToBookRecord record) =
     (if carrying ''520'' ''a'' record = [] then None
      else Some (first_value ''a'' (last (carrying ''520'' ''a'' record))))"
  by (cases "marc_datafield record = Absent")
     (simp_all add: convertToBookRecord_def carrying_def foldl_convert_description
        default_book_record_def)

lemma convert_field_ISBN:
  "ISBN (convert_field tag sfs b) =
     (if tag = ''020'' \<and> list_ex (has_code ''a'') sfs \<and> \<not> truthy_opt (ISBN b)
      then Some (trim (sf_text (hd (filter (has_code ''a'') sfs))))
      else ISBN b)"
proof (cases "find (has_code ''a'') sfs")
  case None
  then have "\<not> list_ex (has_code ''a'') sfs"
    by (simp add: find_None_ex)
  with None show ?thesis
    by (simp add: convert_field_def Let_def split: option.split prod.split)
next
  case (Some sf)
  from find_Some_hd [OF this] Some show ?thesis
    by (simp add: convert_field_def Let_def split: option.split prod.split)
qed

lemma convert_datafield_ISBN:
  "ISBN (convert_datafield b d) =
     (if carries ''020'' ''a'' d \<and> \<not> truthy_opt (ISBN b) then Some (first_value ''a'' d)
      else ISBN b)"
  by (cases "df_tag d")
     (simp_all add: convert_datafield_def convert_field_ISBN carries_def first_value_def)

lemma foldl_convert_ISBN_kept:
  "truthy_opt (ISBN b) \<Longrightarrow> ISBN (foldl convert_datafield b dfs) = ISBN b"
  by (induction dfs arbitrary: b) (simp_all add: convert_datafield_ISBN)

lemma foldl_convert_ISBN_first:
  assumes "filter (carries ''020'' ''a'') dfs = d # ds"
    and "truthy (first_value ''a'' d)"
    and "\<not> truthy_opt (ISBN b)"
  shows "ISBN (foldl convert_datafield b dfs) = Some (first_value ''a'' d)"
  using assms
proof (induction dfs arbitrary: b)
  case Nil
  then show ?case by simp
next
  case (Cons x dfs)
  show ?case
  proof (cases "carries ''020'' ''a'' x")
    case True
    with Cons.prems have "x = d" by simp
    with True Cons.prems have "ISBN (convert_datafield b x) = Some (first_value ''a'' d)"
      by (simp add: convert_datafield_ISBN)
    moreover from this Cons.prems(2) have "truthy_opt (ISBN (convert_datafield b x))"
      by (simp add: truthy_opt_def)
    ultimately show ?thesis
      by (simp add: foldl_convert_ISBN_kept)
  next
    case False
    with Cons.prems have "filter (carries ''020'' ''a'') dfs = d # ds"
      and "\<not> truthy_opt (ISBN (convert_datafield b x))"
      by (simp_all add: convert_datafield_ISBN)
    with Cons.IH Cons.prems(2) show ?thesis by simp
  qed
qed

lemma ISBN_from_first_020:
  assumes "carrying ''020'' ''a'' record = d # ds" and "truthy (first_value ''a'' d)"
  shows "ISBN (convertToBookRecord record) = Some (first_value ''a'' d)"
proof -
  from assms(1) have "marc_datafield record \<noteq> Absent"
    by (auto simp: carrying_def)
  moreover have "\<not> truthy_opt (ISBN default_book_record)"
    by (simp add: default_book_record_def truthy_opt_def)
  ultimately show ?thesis
    using assms foldl_convert_ISBN_first [of "as_array (marc_datafield record)" d ds default_book_record]
    by (simp add: convertToBookRecord_def carrying_def)
qed

text \<open>
  Claim C3 says that ISBN and description both take the first occurrence. On a record
  with two 020 and two 520 occurrences the ISBN is the first one's value, and the
  description is the second one's, not the first's.
\<close>

theorem description_last_520_wins:
  "ISBN (convertToBookRecord
     \<lparr>marc_datafield = Many
        [\<lparr>df_tag = Some ''020'', df_subfields = Single \<lparr>sf_code = ''a'', sf_text = ''111''\<rparr>\<rparr>,
         \<lparr>df_tag = Some ''020'', df_subfields = Single \<lparr>sf_code = ''a'', sf_text = ''222''\<rparr>\<rparr>,
         \<lparr>df_tag = Some ''520'', df_subfields = Single \<lparr>sf_code = ''a'', sf_text = ''first''\<rparr>\<rparr>,
         \<lparr>df_tag = Some ''520'', df_subfields = Single \<lparr>sf_code = ''a'', sf_text = ''second''\<rparr>\<rparr>]\<rparr>)
     = Some ''111'' \<and>
   description (convertToBookRecord
     \<lparr>marc_datafield = Many
        [\<lparr>df_tag = Some ''020'', df_subfields = Single \<lparr>sf_code = ''a'', sf_text = ''111''\<rparr>\<rparr>,
         \<lparr>df_tag = Some ''020'', df_subfields = Single \<lparr>sf_code = ''a'', sf_text = ''222''\<rparr>\<rparr>,
         \<lparr>df_tag = Some ''520'', df_subfields = Single \<lparr>sf_code = ''a'', sf_text = ''first''\<rparr>\<rparr>,
         \<lparr>df_tag = Some ''520'', df_subfields = Single \<lparr>sf_code = ''a'', sf_text = ''second''\<rparr>\<rparr>]\<rparr>)
     = Some ''second''"
  by code_simp

section \<open>Book Record Mapper: thumbnail classification\<close>

lemma trim_Nil [simp]: "trim [] = []"
  by (simp add: trim_def)

lemma toLowerCase_Nil [simp]: "toLowerCase [] = []"
  by (simp add: toLowerCase_def)

lemma has_code_u_not_z [simp]: "has_code ''u'' sf \<Longrightarrow> \<not> has_code ''z'' sf"
  by (simp add: has_code_def)


lemma first_occurrence_split:
  "first_occurrence pat s = Some i \<Longrightarrow> s = take i s @ pat @ drop (i + length pat) s"
proof (induction s arbitrary: i)
  case Nil
  then show ?case by (simp split: if_splits)
next
  case (Cons c cs)
  show ?case
  proof (cases "starts_with pat (c # cs)")
    case True
    with Cons.prems have "i = 0" by simp
    moreover from True have "c # cs = pat @ drop (length pat) (c # cs)"
      unfolding starts_with_def by (metis append_take_drop_id)
    ultimately show ?thesis by simp
  next
    case False
    with Cons.prems obtain j where j: "first_occurrence pat cs = Some j" "i = Suc j"
      by auto
    from Cons.IH [OF j(1)] j(2) show ?thesis by simp
  qed
qed

lemma first_occurrence_at_start:
  "starts_with pat s \<Longrightarrow> first_occurrence pat s = Some 0"
  by (cases s) (auto simp: starts_with_def)

lemma first_occurrence_found:
  "first_occurrence pat (before @ pat @ after) \<noteq> None"
proof (induction before)
  case Nil
  have "starts_with pat (pat @ after)"
    by (simp add: starts_with_def)
  then show ?case
    by (simp add: first_occurrence_at_start)
next
  case (Cons c before)
  then show ?case by auto
qed

lemma str_includes_iff:
  "str_includes s pat \<longleftrightarrow> (\<exists>before after. s = before @ pat @ after)"
proof
  assume "str_includes s pat"
  then obtain i where "first_occurrence pat s = Some i"
    by (auto simp: str_includes_def)
  from first_occurrence_split [OF this] show "\<exists>before after. s = before @ pat @ after"
    by blast
next
  assume "\<exists>before after. s = before @ pat @ after"
  then obtain before after where "s = before @ pat @ after"
    by blast
  with first_occurrence_found [of pat before after] show "str_includes s pat"
    by (simp add: str_includes_def)
qed

lemma includes_lower_iff:
  "str_includes (toLowerCase text) marker \<longleftrightarrow> contains_ci text marker"
proof
  assume "str_includes (toLowerCase text) marker"
  then obtain before after where "map lower_char text = before @ marker @ after"
    by (auto simp: str_includes_iff toLowerCase_def)
  then obtain b rest where rest: "text = b @ rest" "map lower_char rest = marker @ after"
    by (metis map_eq_append_conv)
  then obtain w a where "rest = w @ a" "map lower_char w = marker"
    by (metis map_eq_append_conv)
  with rest have "text = b @ w @ a" "map lower_char w = marker"
    by simp_all
  then show "contains_ci text marker"
    by (auto simp: contains_ci_def toLowerCase_def)
next
  assume "contains_ci text marker"
  then obtain before w after where "text = before @ w @ after" "toLowerCase w = marker"
    by (auto simp: contains_ci_def)
  then have "toLowerCase text = toLowerCase before @ marker @ toLowerCase after"
    by (simp add: toLowerCase_def)
  then show "str_includes (toLowerCase text) marker"
    by (auto simp: str_includes_iff)
qed

lemma contains_ci_code [code]:
  "contains_ci text marker = str_includes (toLowerCase text) marker"
  by (simp add: includes_lower_iff)

lemma lower_char_lower_char [simp]: "lower_char (lower_char c) = lower_char c"
  by (simp add: lower_char_def Let_def)

lemma whitespace_lower_char [simp]: "is_whitespace (lower_char c) = is_whitespace c"
  by (auto simp: lower_char_def Let_def is_whitespace_def)









section \<open>Category Tally Engine: finalization\<close>

lemma convertToSortedArray_eq:
  "convertToSortedArray options counter field =
     sort_key (\<lambda>category. - cat_count category)
       (filter (\<lambda>category. threshold options \<le> cat_count category)
          (category_entries counter field))"
  by (simp add: convertToSortedArray_def category_entries_def threshold_def Let_def
        split: option.split)

lemma convertToSortedArray_mset:
  "mset (convertToSortedArray options counter field) =
     mset (filter (\<lambda>category. threshold options \<le> cat_count category)
             (category_entries counter field))"
  by (simp add: convertToSortedArray_eq)

lemma convertToSortedArray_sorted:
  "sorted_wrt (\<lambda>a b. cat_count b \<le> cat_count a) (convertToSortedArray options counter field)"
proof -
  have "sorted (map (\<lambda>category. - cat_count category)
                  (convertToSortedArray options counter field))"
    unfolding convertToSortedArray_eq by (rule sorted_sort_key)
  then show ?thesis
    by (simp add: sorted_map)
qed

text \<open>
  Claim C6. For every counter state and every \<^verbatim>\<open>minCount\<close> option (an absent option
  counts as 0), each of the two outputs of finalization, subject terms and keywords,
  holds exactly the entries of its counter whose count is at least the threshold, each
  once, and is arranged in non-increasing order of count.
\<close>

theorem finalization_filters_and_sorts:
  "mset (res_subjectTerms (generateResults options st)) =
     mset (filter (\<lambda>category. threshold options \<le> cat_count category)
             (category_entries (st_subjectTerms st) ''650'')) \<and>
   sorted_wrt (\<lambda>a b. cat_count b \<le> cat_count a) (res_subjectTerms (generateResults options st)) \<and>
   mset (res_keywords (generateResults options st)) =
     mset (filter (\<lambda>category. threshold options \<le> cat_count category)
             (category_entries (st_keywords st) ''653'')) \<and>
   sorted_wrt (\<lambda>a b. cat_count b \<le> cat_count a) (res_keywords (generateResults options st))"
  by (simp add: generateResults_def convertToSortedArray_mset convertToSortedArray_sorted)

text \<open>
  An instance for claim C6, with \<^verbatim>\<open>minCount\<close> 2.
\<close>

theorem finalization_witness:
  "threshold \<lparr>minCount = Some 2\<rparr> = 2 \<and>
   res_subjectTerms (generateResults \<lparr>minCount = Some 2\<rparr> sample_counters) =
     [\<lparr>cat_name = ''Education'', cat_code = None, cat_count = 3, cat_field = ''650''\<rparr>,
      \<lparr>cat_name = ''Law'', cat_code = None, cat_count = 2, cat_field = ''650''\<rparr>] \<and>
   res_keywords (generateResults \<lparr>minCount = Some 2\<rparr> sample_counters) =
     [\<lparr>cat_name = ''performance'', cat_code = None, cat_count = 2, cat_field = ''653''\<rparr>] \<and>
   sorted_wrt (\<lambda>a b. cat_count b \<le> cat_count a)
     (res_subjectTerms (generateResults \<lparr>minCount = Some 2\<rparr> sample_counters))"
proof -
  have "res_subjectTerms (generateResults \<lparr>minCount = Some 2\<rparr> sample_counters) =
     [\<lparr>cat_name = ''Education'', cat_code = None, cat_count = 3, cat_field = ''650''\<rparr>,
      \<lparr>cat_name = ''Law'', cat_code = None, cat_count = 2, cat_field = ''650''\<rparr>]"
    and "res_keywords (generateResults \<lparr>minCount = Some 2\<rparr> sample_counters) =
     [\<lparr>cat_name = ''performance'', cat_code = None, cat_count = 2, cat_field = ''653''\<rparr>]"
    and "threshold \<lparr>minCount = Some 2\<rparr> = 2"
    by code_simp+
  with finalization_filters_and_sorts [of "\<lparr>minCount = Some 2\<rparr>" sample_counters]
  show ?thesis by blast
qed

section \<open>Download Index: reset at load time\<close>

lemma reset_transient_states_eq:
  "reset_transient_states index resetCount =
     (map (\<lambda>(isbn, entry). (isbn, fst (reset_entry entry))) index,
      resetCount + length (filter (\<lambda>(isbn, entry). snd (reset_entry entry)) index))"
proof (induction index arbitrary: resetCount)
  case Nil
  then show ?case by simp
next
  case (Cons p index)
  obtain isbn entry where p: "p = (isbn, entry)"
    by (cases p)
  obtain entry' counted where r: "reset_entry entry = (entry', counted)"
    by (cases "reset_entry entry")
  show ?case
    by (simp add: p r Cons.IH)
qed

lemma reset_transient_states_fst:
  "fst (reset_transient_states index resetCount) =
     map (\<lambda>(isbn, entry). (isbn, fst (reset_entry entry))) index"
  by (simp add: reset_transient_states_eq)

lemma loadOrCreateIndex_Parsed:
  "loadOrCreateIndex (Parsed index) = map (\<lambda>(isbn, entry). (isbn, fst (reset_entry entry))) index"
  by (simp add: loadOrCreateIndex_def reset_transient_states_fst)

lemma reset_entry_state:
  "downloadState (fst (reset_entry entry)) \<noteq> Downloading \<and>
   downloadState (fst (reset_entry entry)) \<noteq> Error"
  by (simp add: reset_entry_def)

lemma map_of_loadOrCreateIndex:
  "map_of (loadOrCreateIndex (Parsed index)) isbn =
     map_option (\<lambda>entry. fst (reset_entry entry)) (map_of index isbn)"
  unfolding loadOrCreateIndex_Parsed by (induction index) auto

text \<open>
  Claim C7. After the reset that \<^verbatim>\<open>loadOrCreateIndex\<close> applies to a parsed index, no entry
  is in state \<^verbatim>\<open>downloading\<close> or \<^verbatim>\<open>error\<close>, and every entry that was in one of these states
  is \<^verbatim>\<open>pending\<close> and carries no error message any more (the message is deleted; an
  empty message, which the code does not treat as a message, stays as it is); its other
  fields are untouched.
\<close>

theorem reset_leaves_no_transient_state:
  "(\<forall>(isbn, entry') \<in> set (loadOrCreateIndex (Parsed index)).
      downloadState entry' \<noteq> Downloading \<and> downloadState entry' \<noteq> Error) \<and>
   (\<forall>isbn entry.
      map_of index isbn = Some entry \<and>
      (downloadState entry = Downloading \<or> downloadState entry = Error) \<longrightarrow>
      (\<exists>entry'. map_of (loadOrCreateIndex (Parsed index)) isbn = Some entry' \<and>
         downloadState entry' = Pending \<and>
         \<not> truthy_opt (errorMessage entry') \<and>
         entry' = entry\<lparr>downloadState := Pending, errorMessage := errorMessage entry'\<rparr>))"
proof (intro conjI allI impI)
  show "\<forall>(isbn, entry') \<in> set (loadOrCreateIndex (Parsed index)).
      downloadState entry' \<noteq> Downloading \<and> downloadState entry' \<noteq> Error"
    unfolding loadOrCreateIndex_Parsed using reset_entry_state by auto
next
  fix isbn entry
  assume "map_of index isbn = Some entry \<and>
      (downloadState entry = Downloading \<or> downloadState entry = Error)"
  then have found: "map_of (loadOrCreateIndex (Parsed index)) isbn = Some (fst (reset_entry entry))"
    and transient: "downloadState entry = Downloading \<or> downloadState entry = Error"
    by (simp_all add: map_of_loadOrCreateIndex)
  from transient have "downloadState (fst (reset_entry entry)) = Pending"
    and "\<not> truthy_opt (errorMessage (fst (reset_entry entry)))"
    and "fst (reset_entry entry) =
         entry\<lparr>downloadState := Pending, errorMessage := errorMessage (fst (reset_entry entry))\<rparr>"
    by (auto simp: reset_entry_def truthy_opt_def)
  with found show "\<exists>entry'. map_of (loadOrCreateIndex (Parsed index)) isbn = Some entry' \<and>
         downloadState entry' = Pending \<and>
         \<not> truthy_opt (errorMessage entry') \<and>
         entry' = entry\<lparr>downloadState := Pending, errorMessage := errorMessage entry'\<rparr>"
    by blast
qed

text \<open>
  An instance for claim C7: an index with one entry in each of the states \<^verbatim>\<open>error\<close>,
  \<^verbatim>\<open>downloading\<close> and \<^verbatim>\<open>done\<close>.
\<close>

theorem reset_leaves_no_transient_state_witness:
  "map_of sample_index ''111'' =
     Some \<lparr>entry_record = default_book_record\<lparr>bookUrl := ''http://h/1'', ISBN := Some ''111''\<rparr>,
           downloadState = Error, filePath = None,
           errorMessage = Some ''Request timeout'', downloadedAt = None\<rparr> \<and>
   (\<exists>entry'. map_of (loadOrCreateIndex (Parsed sample_index)) ''111'' = Some entry' \<and>
      downloadState entry' = Pending \<and> \<not> truthy_opt (errorMessage entry')) \<and>
   map (\<lambda>(isbn, entry). (isbn, downloadState entry, errorMessage entry))
     (loadOrCreateIndex (Parsed sample_index)) =
     [(''111'', Pending, None), (''222'', Pending, None), (''333'', Done, None)]"
proof -
  let ?entry = "\<lparr>entry_record = default_book_record\<lparr>bookUrl := ''http://h/1'', ISBN := Some ''111''\<rparr>,
                 downloadState = Error, filePath = None,
                 errorMessage = Some ''Request timeout'', downloadedAt = None\<rparr>"
  have before: "map_of sample_index ''111'' = Some ?entry"
    by code_simp
  then have "map_of sample_index ''111'' = Some ?entry \<and>
      (downloadState ?entry = Downloading \<or> downloadState ?entry = Error)"
    by simp
  with reset_leaves_no_transient_state [of sample_index]
  have after: "\<exists>entry'. map_of (loadOrCreateIndex (Parsed sample_index)) ''111'' = Some entry' \<and>
      downloadState entry' = Pending \<and> \<not> truthy_opt (errorMessage entry')"
    by blast
  have states: "map (\<lambda>(isbn, entry). (isbn, downloadState entry, errorMessage entry))
     (loadOrCreateIndex (Parsed sample_index)) =
     [(''111'', Pending, None), (''222'', Pending, None), (''333'', Done, None)]"
    by code_simp
  from before after states show ?thesis
    by blast
qed

section \<open>Download Manager: ingestion of result files\<close>

lemma map_of_obj_create:
  "map_of object key = None \<Longrightarrow> map_of (obj_create key v object) = (map_of object)(key \<mapsto> v)"
proof (induction object)
  case Nil
  then show ?case by simp
next
  case (Cons entry object)
  obtain k w where entry: "entry = (k, w)"
    by (cases entry)
  from Cons.prems entry have differ: "k \<noteq> key" and rest: "map_of object key = None"
    by (auto split: if_splits)
  from Cons.IH [OF rest] entry differ show ?case
    by (auto split: option.split)
qed

lemma map_of_ingest_record:
  "map_of (ingest_record index record) isbn =
     (if ingestible record \<and> index_key record = isbn
      then (case map_of index isbn of
              None \<Rightarrow> if inherited_member isbn then None else Some (new_entry record)
            | Some entry \<Rightarrow> Some (entry\<lparr>entry_record := record\<rparr>))
      else map_of index isbn)"
  by (simp add: ingest_record_def ingestible_def index_key_def new_entry_def Let_def
        obj_get_def update_conv' map_of_obj_create split: option.split)

lemma ingest_record_skips:
  "\<not> ingestible record \<Longrightarrow> ingest_record index record = index"
  by (auto simp: ingest_record_def ingestible_def)

lemma map_of_foldl_ingest:
  "map_of (foldl ingest_record index records) isbn =
     (if records_for isbn records = [] then map_of index isbn
      else (case map_of index isbn of
              None \<Rightarrow> if inherited_member isbn then None
                     else Some (new_entry (last (records_for isbn records)))
            | Some entry \<Rightarrow> Some (entry\<lparr>entry_record := last (records_for isbn records)\<rparr>)))"
proof (induction records rule: rev_induct)
  case Nil
  then show ?case by (simp add: records_for_def)
next
  case (snoc r records)
  then show ?case
    by (simp add: map_of_ingest_record records_for_def new_entry_def split: option.split)
qed

text \<open>
  Every key after a results file is ingested. Under a key that no ingestible record of
  the file falls on, the entry is as before. Under a key that some record falls on, an
  entry that existed keeps its download state, file path, error message and completion
  time and has its stored record replaced by the last such record of the file; where no
  entry existed, a new one holds that record, in state \<^verbatim>\<open>pending\<close>, unless the key names a
  member inherited from \<^verbatim>\<open>Object.prototype\<close>: then there is still no entry.
\<close>

lemma processJsonFile_entry:
  "map_of (processJsonFile index (Some extractResults)) isbn =
     (if records_for isbn (er_matchingRecords extractResults) = [] then map_of index isbn
      else (case map_of index isbn of
              None \<Rightarrow>
                if inherited_member isbn then None
                else Some (new_entry (last (records_for isbn (er_matchingRecords extractResults))))
            | Some entry \<Rightarrow>
                Some (entry\<lparr>entry_record :=
                               last (records_for isbn (er_matchingRecords extractResults))\<rparr>)))"
  by (simp add: processJsonFile_def map_of_foldl_ingest)

text \<open>
  Claim C8. For a record whose sanitized ISBN is absent from the index, ingestion is to
  insert a new entry in state \<^verbatim>\<open>pending\<close>. The record of \<open>sample_inherited\<close> has a
  non-empty ISBN and book URL, its sanitized ISBN \<^verbatim>\<open>constructor\<close> is absent from the empty
  index, and after the file is ingested the index is still empty: no entry was inserted.
  (With the key 555 instead, the same file content gives the new entry in state
  \<^verbatim>\<open>pending\<close>.)
\<close>

theorem ingestion_inserts_nothing_for_constructor:
  "er_matchingRecords sample_inherited =
     [default_book_record\<lparr>title := ''Objects'', bookUrl := ''http://h/c'',
                           ISBN := Some ''constructor''\<rparr>] \<and>
   ingestible (default_book_record\<lparr>title := ''Objects'', bookUrl := ''http://h/c'',
                                   ISBN := Some ''constructor''\<rparr>) \<and>
   index_key (default_book_record\<lparr>title := ''Objects'', bookUrl := ''http://h/c'',
                                   ISBN := Some ''constructor''\<rparr>) = ''constructor'' \<and>
   map_of ([] :: download_index) ''constructor'' = None \<and>
   processJsonFile [] (Some sample_inherited) = [] \<and>
   processJsonFile []
     (Some (sample_inherited\<lparr>er_matchingRecords :=
        [default_book_record\<lparr>title := ''Objects'', bookUrl := ''http://h/c'',
                              ISBN := Some ''555''\<rparr>]\<rparr>)) =
     [(''555'', \<lparr>entry_record = default_book_record\<lparr>title := ''Objects'', bookUrl := ''http://h/c'',
                                                     ISBN := Some ''555''\<rparr>,
                downloadState = Pending, filePath = None, errorMessage = None,
                downloadedAt = None\<rparr>)]"
  by code_simp

lemma foldl_ingest_filter:
  "foldl ingest_record index records = foldl ingest_record index (filter ingestible records)"
  by (induction records arbitrary: index) (simp_all add: ingest_record_skips)

lemma last_records_for:
  "records_for isbn records \<noteq> [] \<Longrightarrow>
   ingestible (last (records_for isbn records)) \<and>
   index_key (last (records_for isbn records)) = isbn \<and>
   last (records_for isbn records) \<in> set records"
proof -
  assume "records_for isbn records \<noteq> []"
  then have "last (records_for isbn records) \<in> set (records_for isbn records)"
    by (rule last_in_set)
  then show ?thesis
    by (simp add: records_for_def)
qed

text \<open>
  Claim C10. Records whose ISBN is null or empty, or whose book URL is empty, are skipped:
  ingesting a file gives the same index as ingesting the file without them. So an entry
  found in the index after ingestion either was there before, unchanged, or holds an
  ingestible record of the file (non-empty ISBN and book URL) whose sanitized ISBN is the
  entry's key.
\<close>

theorem ingestion_skips_records_without_isbn_or_url:
  "(\<not> ingestible skipped \<longrightarrow> ingest_record index skipped = index) \<and>
   processJsonFile index (Some extractResults) =
     processJsonFile index
       (Some (extractResults\<lparr>er_matchingRecords :=
                 filter ingestible (er_matchingRecords extractResults)\<rparr>)) \<and>
   (\<forall>isbn entry.
      map_of (processJsonFile index (Some extractResults)) isbn = Some entry \<longrightarrow>
      map_of index isbn = Some entry \<or>
      (ingestible (entry_record entry) \<and> index_key (entry_record entry) = isbn \<and>
       entry_record entry \<in> set (er_matchingRecords extractResults)))"
proof (intro conjI allI impI)
  assume "\<not> ingestible skipped"
  then show "ingest_record index skipped = index"
    by (rule ingest_record_skips)
next
  show "processJsonFile index (Some extractResults) =
     processJsonFile index
       (Some (extractResults\<lparr>er_matchingRecords :=
                 filter ingestible (er_matchingRecords extractResults)\<rparr>))"
    using foldl_ingest_filter [of index "er_matchingRecords extractResults"]
    by (simp add: processJsonFile_def)
next
  fix isbn entry
  let ?hits = "records_for isbn (er_matchingRecords extractResults)"
  assume after: "map_of (processJsonFile index (Some extractResults)) isbn = Some entry"
  show "map_of index isbn = Some entry \<or>
      (ingestible (entry_record entry) \<and> index_key (entry_record entry) = isbn \<and>
       entry_record entry \<in> set (er_matchingRecords extractResults))"
  proof (cases "?hits = []")
    case True
    with after show ?thesis
      by (simp add: processJsonFile_def map_of_foldl_ingest)
  next
    case False
    from after False
    have entry: "(case map_of index isbn of
                    None \<Rightarrow> if inherited_member isbn then None else Some (new_entry (last ?hits))
                  | Some old \<Rightarrow> Some (old\<lparr>entry_record := last ?hits\<rparr>)) = Some entry"
      by (simp add: processJsonFile_def map_of_foldl_ingest)
    have "entry_record entry = last ?hits"
    proof (cases "map_of index isbn")
      case None
      with entry have "entry = new_entry (last ?hits)"
        by (simp split: if_splits)
      then show ?thesis
        by (simp add: new_entry_def)
    next
      case (Some old)
      with entry have "entry = old\<lparr>entry_record := last ?hits\<rparr>"
        by simp
      then show ?thesis
        by simp
    qed
    then have "entry_record entry = last ?hits" .
    with last_records_for [OF False] show ?thesis
      by simp
  qed
qed

text \<open>
  An instance for claim C10: the record without ISBN leaves the index as it is, and the
  entry created under key 555 holds an ingestible record.
\<close>

theorem ingestion_skips_witness:
  "\<not> ingestible (default_book_record\<lparr>title := ''No ISBN'', bookUrl := ''http://h/0''\<rparr>) \<and>
   ingest_record sample_index (default_book_record\<lparr>title := ''No ISBN'', bookUrl := ''http://h/0''\<rparr>)
     = sample_index \<and>
   map_of sample_index ''555'' = None \<and>
   map_of (processJsonFile sample_index (Some sample_results)) ''555'' =
     Some (new_entry
             (default_book_record\<lparr>title := ''New'', bookUrl := ''http://h/5'', ISBN := Some ''5-55''\<rparr>)) \<and>
   ingestible (default_book_record\<lparr>title := ''New'', bookUrl := ''http://h/5'', ISBN := Some ''5-55''\<rparr>) \<and>
   map fst (processJsonFile sample_index (Some sample_results)) = [''111'', ''222'', ''333'', ''555'']"
proof -
  let ?none = "default_book_record\<lparr>title := ''No ISBN'', bookUrl := ''http://h/0''\<rparr>"
  let ?new = "default_book_record\<lparr>title := ''New'', bookUrl := ''http://h/5'', ISBN := Some ''5-55''\<rparr>"
  note facts = ingestion_skips_records_without_isbn_or_url
    [where skipped = ?none and index = sample_index and extractResults = sample_results]
  have no_isbn: "\<not> ingestible ?none"
    by (simp add: ingestible_def default_book_record_def truthy_opt_def)
  with facts have skipped: "ingest_record sample_index ?none = sample_index"
    by blast
  have before: "map_of sample_index ''555'' = None"
    by code_simp
  have after: "map_of (processJsonFile sample_index (Some sample_results)) ''555'' =
      Some (new_entry ?new)"
    by code_simp
  with facts
  have "map_of sample_index ''555'' = Some (new_entry ?new) \<or>
      (ingestible (entry_record (new_entry ?new)) \<and>
       index_key (entry_record (new_entry ?new)) = ''555'' \<and>
       entry_record (new_entry ?new) \<in> set (er_matchingRecords sample_results))"
    by blast
  with before have valid: "ingestible ?new"
    by (simp add: new_entry_def)
  have keys: "map fst (processJsonFile sample_index (Some sample_results)) =
      [''111'', ''222'', ''333'', ''555'']"
    by code_simp
  from no_isbn skipped before after valid keys show ?thesis
    by blast
qed

section \<open>Download Manager: the redirect limit\<close>





end
